theory Spec2Isabelle
  imports Complex_Main
begin

section \<open>Buffers: the part of NumPy that \<open>filtering.py\<close> uses\<close>

text \<open>
  \<open>filtering.py\<close> works on NumPy arrays. An array is modelled as NumPy stores it: a
  sample type, a shape and a flat row-major buffer. Floating-point samples are idealised
  as real numbers (no rounding), except in the section on binary64 arithmetic, where
  \<open>low_pass\<close> and \<open>high_pass\<close> are modelled once more with every float operation
  rounded; 8-bit unsigned samples are the reals \<open>0, 1, \<dots>, 255\<close>, and every operation
  that NumPy performs in 8-bit arithmetic has its wrap-around modulo 256 written out.
  Every Python exception is a value of type \<open>error\<close>.
\<close>

datatype error =
  AssertionError | IndexError | ValueError | TypeError | ZeroDivisionError | OverflowError

datatype dtype = UInt8 | Float32 | Float64

record ndarray =
  dtype :: dtype
  shape :: "nat list"
  buf :: "real list"

text \<open>All multi-indices of a shape, in row-major order, and the position of one in the buffer.\<close>

fun indices :: "nat list \<Rightarrow> nat list list" where
  "indices [] = [[]]"
| "indices (n # ns) = concat (map (\<lambda>i. map ((#) i) (indices ns)) [0..<n])"

fun offset :: "nat list \<Rightarrow> nat list \<Rightarrow> nat" where
  "offset (n # ns) (i # js) = i * prod_list ns + offset ns js"
| "offset _ _ = 0"

definition get :: "ndarray \<Rightarrow> nat list \<Rightarrow> real" where
  "get a idx = buf a ! offset (shape a) idx"

text \<open>The array of a given sample type and shape whose entry at \<open>idx\<close> is \<open>f idx\<close>.\<close>

definition mk :: "dtype \<Rightarrow> nat list \<Rightarrow> (nat list \<Rightarrow> real) \<Rightarrow> ndarray" where
  "mk d s f = \<lparr>dtype = d, shape = s, buf = map f (indices s)\<rparr>"

definition zeros :: "nat list \<Rightarrow> dtype \<Rightarrow> ndarray" where
  "zeros s d = \<lparr>dtype = d, shape = s, buf = replicate (prod_list s) 0\<rparr>"

definition zeros_like :: "ndarray \<Rightarrow> dtype \<Rightarrow> ndarray" where
  "zeros_like a d = zeros (shape a) d"

text \<open>
  A well-formed array has as many samples as its shape says, and an 8-bit array holds
  integers between 0 and 255.
\<close>

definition is_u8 :: "real \<Rightarrow> bool" where
  "is_u8 v \<longleftrightarrow> v = of_int \<lfloor>v\<rfloor> \<and> 0 \<le> v \<and> v < 256"

definition u8_ok :: "ndarray \<Rightarrow> bool" where
  "u8_ok a \<longleftrightarrow> (dtype a = UInt8 \<longrightarrow> list_all is_u8 (buf a))"

definition wf :: "ndarray \<Rightarrow> bool" where
  "wf a \<longleftrightarrow> length (buf a) = prod_list (shape a) \<and> u8_ok a"

subsection \<open>Sample types: promotion, casts and wrap-around\<close>

text \<open>
  NumPy's result type of a binary operation on two arrays: 8-bit with 8-bit stays 8-bit
  (and wraps), anything with a float is the wider float.
\<close>

definition promote :: "dtype \<Rightarrow> dtype \<Rightarrow> dtype" where
  "promote a b =
     (if a = Float64 \<or> b = Float64 then Float64
      else if a = Float32 \<or> b = Float32 then Float32 else UInt8)"

text \<open>
  Storing a value into an array of type \<open>d\<close>: a float is truncated towards zero when
  the target is 8-bit, and the 8-bit result is taken modulo 256. (For a float beyond the
  range of the machine integers the result of the conversion depends on the machine; no
  property proved below depends on such a conversion.)
\<close>

definition trunc :: "real \<Rightarrow> int" where
  "trunc x = (if 0 \<le> x then \<lfloor>x\<rfloor> else \<lceil>x\<rceil>)"

definition wrap_u8 :: "int \<Rightarrow> real" where
  "wrap_u8 k = of_int (k mod 256)"

definition cast :: "dtype \<Rightarrow> real \<Rightarrow> real" where
  "cast d x = (if d = UInt8 then wrap_u8 (trunc x) else x)"

subsection \<open>Broadcasting\<close>

text \<open>
  NumPy aligns two shapes at their last axis; two lengths are compatible when they are
  equal or one of them is 1. The functions below work on reversed shapes.
\<close>

fun bshape_rev :: "nat list \<Rightarrow> nat list \<Rightarrow> nat list option" where
  "bshape_rev [] ts = Some ts"
| "bshape_rev (s # ss) [] = Some (s # ss)"
| "bshape_rev (s # ss) (t # ts) =
     (if s = t \<or> s = 1 \<or> t = 1
      then map_option ((#) (if s = 1 then t else s)) (bshape_rev ss ts)
      else None)"

definition broadcast_shapes :: "nat list \<Rightarrow> nat list \<Rightarrow> nat list option" where
  "broadcast_shapes s t = map_option rev (bshape_rev (rev s) (rev t))"

text \<open>
  Whether an array of shape \<open>s\<close> can be assigned to a target of shape \<open>t\<close>: the axes
  of \<open>s\<close> beyond the rank of \<open>t\<close> must have length 1.
\<close>

fun assignable_rev :: "nat list \<Rightarrow> nat list \<Rightarrow> bool" where
  "assignable_rev [] ts = True"
| "assignable_rev (s # ss) [] = (s = 1 \<and> assignable_rev ss [])"
| "assignable_rev (s # ss) (t # ts) = ((s = t \<or> s = 1) \<and> assignable_rev ss ts)"

definition assignable :: "nat list \<Rightarrow> nat list \<Rightarrow> bool" where
  "assignable s t = assignable_rev (rev s) (rev t)"

text \<open>Reading a broadcast array at an index of the result: an axis of length 1 is read at 0.\<close>

fun bidx_rev :: "nat list \<Rightarrow> nat list \<Rightarrow> nat list" where
  "bidx_rev [] js = []"
| "bidx_rev (s # ss) [] = 0 # bidx_rev ss []"
| "bidx_rev (s # ss) (i # js) = (if s = 1 then 0 else i) # bidx_rev ss js"

definition bget :: "ndarray \<Rightarrow> nat list \<Rightarrow> real" where
  "bget a idx = get a (rev (bidx_rev (rev (shape a)) (rev idx)))"

text \<open>
  \<open>a op b\<close> for two arrays: a new array of the promoted type and the broadcast shape;
  \<open>ValueError\<close> when the shapes do not broadcast.
\<close>

definition binop :: "(real \<Rightarrow> real \<Rightarrow> real) \<Rightarrow> ndarray \<Rightarrow> ndarray \<Rightarrow> error + ndarray" where
  "binop f a b =
     (case broadcast_shapes (shape a) (shape b) of
        None \<Rightarrow> Inl ValueError
      | Some s \<Rightarrow>
          let d = promote (dtype a) (dtype b)
          in Inr (mk d s (\<lambda>idx. cast d (f (bget a idx) (bget b idx)))))"

definition np_sum :: "ndarray \<Rightarrow> real" where
  "np_sum a = sum_list (buf a)"

text \<open>The first exception of a sequence of computations, or all their results.\<close>

fun collect :: "(error + 'a) list \<Rightarrow> error + 'a list" where
  "collect [] = Inr []"
| "collect (Inl e # rs) = Inl e"
| "collect (Inr v # rs) = (case collect rs of Inl e \<Rightarrow> Inl e | Inr vs \<Rightarrow> Inr (v # vs))"

section \<open>\<open>cross_correlation_2d\<close>\<close>

text \<open>
  \<open>np.pad(img, ((half_m, half_m), (half_n, half_n)), mode='constant')\<close> and its rank-3
  form with \<open>(0, 0)\<close> for the channel axis.
\<close>

definition pad2 :: "ndarray \<Rightarrow> nat \<Rightarrow> nat \<Rightarrow> ndarray" where
  "pad2 img half_m half_n =
     (let img_h = shape img ! 0; img_w = shape img ! 1
      in mk (dtype img) [img_h + 2 * half_m, img_w + 2 * half_n]
           (\<lambda>idx. let y = idx ! 0; x = idx ! 1
                  in if half_m \<le> y \<and> y < half_m + img_h \<and> half_n \<le> x \<and> x < half_n + img_w
                     then get img [y - half_m, x - half_n] else 0))"

definition pad3 :: "ndarray \<Rightarrow> nat \<Rightarrow> nat \<Rightarrow> ndarray" where
  "pad3 img half_m half_n =
     (let img_h = shape img ! 0; img_w = shape img ! 1; img_c = shape img ! 2
      in mk (dtype img) [img_h + 2 * half_m, img_w + 2 * half_n, img_c]
           (\<lambda>idx. let y = idx ! 0; x = idx ! 1; c = idx ! 2
                  in if half_m \<le> y \<and> y < half_m + img_h \<and> half_n \<le> x \<and> x < half_n + img_w
                     then get img [y - half_m, x - half_n, c] else 0))"

text \<open>
  The slices \<open>img_pad[h:(h+full_m), w:(w+full_n)]\<close> and
  \<open>img_pad[h:(h+full_m), w:(w+full_n), c]\<close>. A slice is cut off at the end of the
  axis; an integer index beyond the axis raises \<open>IndexError\<close>.
\<close>

definition window2 :: "ndarray \<Rightarrow> nat \<Rightarrow> nat \<Rightarrow> nat \<Rightarrow> nat \<Rightarrow> ndarray" where
  "window2 p h full_m w full_n =
     mk (dtype p) [min (h + full_m) (shape p ! 0) - h, min (w + full_n) (shape p ! 1) - w]
        (\<lambda>idx. get p [h + idx ! 0, w + idx ! 1])"

definition window3 :: "ndarray \<Rightarrow> nat \<Rightarrow> nat \<Rightarrow> nat \<Rightarrow> nat \<Rightarrow> nat \<Rightarrow> error + ndarray" where
  "window3 p h full_m w full_n c =
     (if c < shape p ! 2
      then Inr (mk (dtype p)
                  [min (h + full_m) (shape p ! 0) - h, min (w + full_n) (shape p ! 1) - w]
                  (\<lambda>idx. get p [h + idx ! 0, w + idx ! 1, c]))
      else Inl IndexError)"

text \<open>\<open>np.sum(kernel * window)\<close>.\<close>

definition kernel_dot :: "ndarray \<Rightarrow> ndarray \<Rightarrow> error + real" where
  "kernel_dot kern win =
     (case binop (*) kern win of Inl e \<Rightarrow> Inl e | Inr p \<Rightarrow> Inr (np_sum p))"

text \<open>
  The body of the rank-3 loop: the three assignments to \<open>out_img[h,w,0]\<close>,
  \<open>out_img[h,w,1]\<close> and \<open>out_img[h,w,2]\<close>, in this order. The result is the pixel's run
  in the output buffer: channels beyond the third keep the zero of \<open>np.zeros_like\<close>.
\<close>

definition pixel3 :: "ndarray \<Rightarrow> ndarray \<Rightarrow> nat \<Rightarrow> nat \<Rightarrow> nat \<Rightarrow> nat \<Rightarrow> error + real list" where
  "pixel3 kern img_pad h full_m w full_n =
     (case collect (map (\<lambda>c. case window3 img_pad h full_m w full_n c of
                                 Inl e \<Rightarrow> Inl e
                               | Inr win \<Rightarrow> kernel_dot kern win) [0, 1, 2]) of
        Inl e \<Rightarrow> Inl e
      | Inr vs \<Rightarrow> Inr (vs @ replicate (shape img_pad ! 2 - 3) 0))"

definition cross_correlation_2d :: "ndarray \<Rightarrow> ndarray \<Rightarrow> error + ndarray" where
  "cross_correlation_2d img kern =
     (if length (shape img) = 2 then
        (case shape kern of
           [full_m, full_n] \<Rightarrow>
             let img_h = shape img ! 0; img_w = shape img ! 1;
                 half_m = full_m div 2; half_n = full_n div 2;
                 img_pad = pad2 img half_m half_n
             in (case collect (map (\<lambda>hw. kernel_dot kern
                                           (window2 img_pad (hw ! 0) full_m (hw ! 1) full_n))
                                 (indices [img_h, img_w])) of
                   Inl e \<Rightarrow> Inl e
                 | Inr vs \<Rightarrow> Inr \<lparr>dtype = Float64, shape = shape img, buf = vs\<rparr>)
         | _ \<Rightarrow> Inl ValueError)
      else if length (shape img) = 3 then
        (case shape kern of
           [full_m, full_n] \<Rightarrow>
             let img_h = shape img ! 0; img_w = shape img ! 1;
                 half_m = full_m div 2; half_n = full_n div 2;
                 img_pad = pad3 img half_m half_n
             in (case collect (map (\<lambda>hw. pixel3 kern img_pad (hw ! 0) full_m (hw ! 1) full_n)
                                 (indices [img_h, img_w])) of
                   Inl e \<Rightarrow> Inl e
                 | Inr rows \<Rightarrow> Inr \<lparr>dtype = Float64, shape = shape img, buf = concat rows\<rparr>)
         | _ \<Rightarrow> Inl ValueError)
      else Inr (zeros_like img Float64))"

section \<open>\<open>convolve_2d\<close>\<close>

text \<open>
  \<open>kernel[::-1, ::-1]\<close> reverses the first two axes; it raises \<open>IndexError\<close> on an array
  of rank below 2.
\<close>

definition flip2 :: "ndarray \<Rightarrow> error + ndarray" where
  "flip2 a =
     (case shape a of
        m # n # rest \<Rightarrow>
          Inr (mk (dtype a) (shape a)
                 (\<lambda>idx. get a ((m - 1 - idx ! 0) # (n - 1 - idx ! 1) # drop 2 idx)))
      | _ \<Rightarrow> Inl IndexError)"

definition convolve_2d :: "ndarray \<Rightarrow> ndarray \<Rightarrow> error + ndarray" where
  "convolve_2d img kern =
     (case flip2 kern of Inl e \<Rightarrow> Inl e | Inr k \<Rightarrow> cross_correlation_2d img k)"

section \<open>\<open>gaussian_blur_kernel_2d\<close>\<close>

text \<open>
  \<open>sigma\<close> is a Python float (a finite binary64 number), \<open>height\<close> and \<open>width\<close> are
  Python integers. The values of the float operations are idealised as reals, but the
  exceptions that Python raises at the ends of the float range are kept. The square of
  a float is beyond the float range when it rounds to \<open>2^1024\<close> or more, that is from
  \<open>2^1024 - 2^970\<close> on, and it is \<open>0.0\<close> when it rounds to zero, that is up to
  \<open>2^-1075\<close>.
\<close>

text \<open>
  \<open>np.zeros((height, width))\<close> raises \<open>ValueError\<close> for a negative dimension and for
  an array of float64 samples that would take \<open>2^63\<close> bytes or more (a dimension of 0
  does not count in this product). Whether the memory for a smaller array is there
  depends on the machine: memory is not a limit in the model.
\<close>

definition zeros_too_big :: "int \<Rightarrow> int \<Rightarrow> bool" where
  "zeros_too_big height width \<longleftrightarrow> 2 ^ 63 \<le> 8 * max 1 height * max 1 width"

definition float_overflows :: "real \<Rightarrow> bool" where
  "float_overflows v \<longleftrightarrow> 2 ^ 1024 - 2 ^ 970 \<le> \<bar>v\<bar>"

definition float_rounds_to_zero :: "real \<Rightarrow> bool" where
  "float_rounds_to_zero v \<longleftrightarrow> \<bar>v\<bar> \<le> 1 / 2 ^ 1075"

text \<open>
  The entry written by the loop body is
  \<open>(1/(2*pi*sigma))*(e**(-((x-half_width)**2+(y-half_height)**2)/(2*sigma**2)))\<close>.
  Python evaluates it from the left: \<open>1/(2*pi*sigma)\<close> raises \<open>ZeroDivisionError\<close> when
  \<open>2*pi*sigma\<close> is \<open>0.0\<close>, which for a float \<open>sigma\<close> is the case only when \<open>sigma\<close> is
  zero; \<open>sigma**2\<close> raises \<open>OverflowError\<close> when the square is beyond the float range;
  and the division by \<open>2*sigma**2\<close> raises \<open>ZeroDivisionError\<close> when the square is \<open>0.0\<close>.
  The other operations of the body raise nothing. The division by \<open>np.sum(filter)\<close> is
  NumPy's and raises nothing.
\<close>

definition gauss_entry :: "real \<Rightarrow> int \<Rightarrow> int \<Rightarrow> int \<Rightarrow> int \<Rightarrow> error + real" where
  "gauss_entry sigma half_height half_width y x =
     (if sigma = 0 then Inl ZeroDivisionError
      else if float_overflows (sigma\<^sup>2) then Inl OverflowError
      else if float_rounds_to_zero (sigma\<^sup>2) then Inl ZeroDivisionError
      else Inr ((1 / (2 * pi * sigma)) *
                (exp 1 powr (- real_of_int ((x - half_width)\<^sup>2 + (y - half_height)\<^sup>2)
                             / (2 * sigma\<^sup>2)))))"

definition div_scalar :: "ndarray \<Rightarrow> real \<Rightarrow> ndarray" where
  "div_scalar a s = a\<lparr>buf := map (\<lambda>v. v / s) (buf a)\<rparr>"

definition gaussian_blur_kernel_2d :: "real \<Rightarrow> int \<Rightarrow> int \<Rightarrow> error + ndarray" where
  "gaussian_blur_kernel_2d sigma height width =
     (if height < 0 \<or> width < 0 \<or> zeros_too_big height width then Inl ValueError
      else
        let half_height = height div 2; half_width = width div 2
        in case collect (map (\<lambda>idx. gauss_entry sigma half_height half_width
                                       (int (idx ! 0)) (int (idx ! 1)))
                           (indices [nat height, nat width])) of
             Inl e \<Rightarrow> Inl e
           | Inr vs \<Rightarrow>
               let filt = \<lparr>dtype = Float64, shape = [nat height, nat width], buf = vs\<rparr>;
                   norm_filter = div_scalar filt (np_sum filt)
               in Inr norm_filter)"

section \<open>\<open>low_pass\<close>, \<open>high_pass\<close> and \<open>create_hybrid_image\<close>\<close>

definition low_pass :: "ndarray \<Rightarrow> real \<Rightarrow> int \<Rightarrow> error + ndarray" where
  "low_pass img sigma ksize =
     (case gaussian_blur_kernel_2d sigma ksize ksize of
        Inl e \<Rightarrow> Inl e
      | Inr k \<Rightarrow> convolve_2d img k)"

definition high_pass :: "ndarray \<Rightarrow> real \<Rightarrow> int \<Rightarrow> error + ndarray" where
  "high_pass img sigma ksize =
     (case gaussian_blur_kernel_2d sigma ksize ksize of
        Inl e \<Rightarrow> Inl e
      | Inr k \<Rightarrow>
          (case convolve_2d img k of
             Inl e \<Rightarrow> Inl e
           | Inr low \<Rightarrow> binop (-) img low))"

text \<open>A Python number: the scalar operand of \<open>*=\<close>.\<close>

datatype pynum = PyInt int | PyFloat real

text \<open>
  \<open>a *= x\<close> for a Python scalar \<open>x\<close>. An 8-bit array cannot take a float result
  (NumPy raises \<open>UFuncTypeError\<close>, a \<open>TypeError\<close>); with a Python integer it stays
  8-bit and wraps; an integer outside \<open>0..255\<close> is refused with \<open>OverflowError\<close>
  (NumPy 2).
\<close>

definition imul_scalar :: "ndarray \<Rightarrow> pynum \<Rightarrow> error + ndarray" where
  "imul_scalar a x =
     (case x of
        PyFloat r \<Rightarrow>
          if dtype a = UInt8 then Inl TypeError
          else Inr (a\<lparr>buf := map (\<lambda>v. v * r) (buf a)\<rparr>)
      | PyInt k \<Rightarrow>
          if dtype a = UInt8 then
            (if 0 \<le> k \<and> k \<le> 255
             then Inr (a\<lparr>buf := map (\<lambda>v. cast UInt8 (v * of_int k)) (buf a)\<rparr>)
             else Inl OverflowError)
          else Inr (a\<lparr>buf := map (\<lambda>v. v * of_int k) (buf a)\<rparr>))"

definition lower_char :: "char \<Rightarrow> char" where
  "lower_char c =
     (if 65 \<le> (of_char c :: nat) \<and> (of_char c :: nat) \<le> 90
      then char_of ((of_char c :: nat) + 32) else c)"

definition lower :: "string \<Rightarrow> string" where
  "lower s = map lower_char s"

text \<open>
  Lines 136 to 138: the test reads the sample type of \<open>img1\<close> only, and its branch
  converts both images.
\<close>

definition to_unit_float32 :: "ndarray \<Rightarrow> ndarray" where
  "to_unit_float32 a = div_scalar (a\<lparr>dtype := Float32\<rparr>) 255"

definition hybrid_normalize :: "ndarray \<Rightarrow> ndarray \<Rightarrow> ndarray \<times> ndarray" where
  "hybrid_normalize img1 img2 =
     (if dtype img1 = UInt8 then (to_unit_float32 img1, to_unit_float32 img2)
      else (img1, img2))"

definition hybrid_filter :: "string \<Rightarrow> ndarray \<Rightarrow> real \<Rightarrow> int \<Rightarrow> error + ndarray" where
  "hybrid_filter high_low img sigma ksize =
     (if high_low = ''low'' then low_pass img sigma ksize else high_pass img sigma ksize)"

text \<open>\<open>(hybrid_img * 255).clip(0, 255).astype(np.uint8)\<close>.\<close>

definition to_uint8_image :: "ndarray \<Rightarrow> ndarray" where
  "to_uint8_image a =
     \<lparr>dtype = UInt8, shape = shape a,
      buf = map (\<lambda>v. cast UInt8 (max 0 (min 255 (v * 255)))) (buf a)\<rparr>"

definition create_hybrid_image ::
  "ndarray \<Rightarrow> ndarray \<Rightarrow> real \<Rightarrow> int \<Rightarrow> string \<Rightarrow> real \<Rightarrow> int \<Rightarrow> string \<Rightarrow> real
     \<Rightarrow> error + ndarray" where
  "create_hybrid_image img1 img2 sigma1 size1 high_low1 sigma2 size2 high_low2 mixin_ratio =
     (let high_low1 = lower high_low1; high_low2 = lower high_low2;
          (img1, img2) = hybrid_normalize img1 img2
      in case hybrid_filter high_low1 img1 sigma1 size1 of
           Inl e \<Rightarrow> Inl e
         | Inr img1 \<Rightarrow>
        (case hybrid_filter high_low2 img2 sigma2 size2 of
           Inl e \<Rightarrow> Inl e
         | Inr img2 \<Rightarrow>
        (case imul_scalar img1 (PyFloat (2 * (1 - mixin_ratio))) of
           Inl e \<Rightarrow> Inl e
         | Inr img1 \<Rightarrow>
        (case imul_scalar img2 (PyFloat (2 * mixin_ratio)) of
           Inl e \<Rightarrow> Inl e
         | Inr img2 \<Rightarrow>
        (case binop (+) img1 img2 of
           Inl e \<Rightarrow> Inl e
         | Inr hybrid_img \<Rightarrow> Inr (to_uint8_image hybrid_img))))))"

section \<open>\<open>separable_filter\<close>\<close>

definition transpose_nd :: "ndarray \<Rightarrow> ndarray" where
  "transpose_nd a = mk (dtype a) (rev (shape a)) (\<lambda>idx. get a (rev idx))"

definition separable_filter :: "ndarray \<Rightarrow> ndarray \<Rightarrow> error + ndarray" where
  "separable_filter img kernel1d =
     (case cross_correlation_2d img kernel1d of
        Inl e \<Rightarrow> Inl e
      | Inr t \<Rightarrow> cross_correlation_2d t (transpose_nd kernel1d))"

section \<open>The Laplacian pyramid\<close>

definition blur_1d :: ndarray where
  "blur_1d = \<lparr>dtype = Float64, shape = [1, 5], buf = [0.0625, 0.25, 0.375, 0.25, 0.0625]\<rparr>"

text \<open>\<open>blurImg[::2,::2,:]\<close>: three indices, so \<open>IndexError\<close> on an array of rank below 3.\<close>

definition decimate :: "ndarray \<Rightarrow> error + ndarray" where
  "decimate a =
     (case shape a of
        h # w # c # rest \<Rightarrow>
          Inr (mk (dtype a) (((h + 1) div 2) # ((w + 1) div 2) # c # rest)
                 (\<lambda>idx. get a ((2 * idx ! 0) # (2 * idx ! 1) # drop 2 idx)))
      | _ \<Rightarrow> Inl IndexError)"

text \<open>
  \<open>upImg[io::2, jo::2, :] = currImg\<close> for a rank-3 \<open>upImg\<close>: the source is broadcast
  to the shape of the slice (\<open>ValueError\<close> when it cannot be) and cast to the sample
  type of \<open>upImg\<close>; the other entries of \<open>upImg\<close> stay.
\<close>

definition assign_strided :: "ndarray \<Rightarrow> nat \<Rightarrow> nat \<Rightarrow> ndarray \<Rightarrow> error + ndarray" where
  "assign_strided upImg io jo src =
     (let target = [(shape upImg ! 0 - io + 1) div 2, (shape upImg ! 1 - jo + 1) div 2,
                    shape upImg ! 2]
      in if assignable (shape src) target
         then Inr (mk (dtype upImg) (shape upImg)
                     (\<lambda>idx. if idx ! 0 mod 2 = io \<and> idx ! 1 mod 2 = jo
                            then cast (dtype upImg) (bget src [idx ! 0 div 2, idx ! 1 div 2, idx ! 2])
                            else get upImg idx))
         else Inl ValueError)"

fun assign_all :: "ndarray \<Rightarrow> (nat \<times> nat) list \<Rightarrow> ndarray \<Rightarrow> error + ndarray" where
  "assign_all upImg [] src = Inr upImg"
| "assign_all upImg ((io, jo) # rest) src =
     (case assign_strided upImg io jo src of
        Inl e \<Rightarrow> Inl e
      | Inr upImg' \<Rightarrow> assign_all upImg' rest src)"

text \<open>
  The nearest-neighbour upsampling that both pyramid functions spell out:
  \<open>H, W, = currImg.shape[:2]\<close>, \<open>upImg = np.zeros((2*H, 2*W, 3), dtype=d)\<close> and the
  four strided assignments.
\<close>

definition upsample :: "dtype \<Rightarrow> ndarray \<Rightarrow> error + ndarray" where
  "upsample d currImg =
     (case shape currImg of
        H # W # rest \<Rightarrow>
          assign_all (zeros [2 * H, 2 * W, 3] d) [(0, 0), (0, 1), (1, 0), (1, 1)] currImg
      | _ \<Rightarrow> Inl ValueError)"

text \<open>The loop \<open>for currLev in range(1, levels)\<close> that builds the Gaussian pyramid.\<close>

fun gau_steps :: "nat list \<Rightarrow> ndarray list \<Rightarrow> error + ndarray list" where
  "gau_steps [] gau_pyr = Inr gau_pyr"
| "gau_steps (currLev # rest) gau_pyr =
     (case separable_filter (gau_pyr ! (currLev - 1)) blur_1d of
        Inl e \<Rightarrow> Inl e
      | Inr blurImg \<Rightarrow>
          (case decimate blurImg of
             Inl e \<Rightarrow> Inl e
           | Inr blurImg' \<Rightarrow> gau_steps rest (gau_pyr @ [blurImg'])))"

text \<open>
  The loop \<open>for currLev in range(levels-1, 0, -1)\<close> that builds the Laplacian pyramid;
  \<open>d\<close> is \<open>img.dtype\<close>.
\<close>

fun lap_steps :: "dtype \<Rightarrow> ndarray list \<Rightarrow> nat list \<Rightarrow> ndarray list \<Rightarrow> error + ndarray list" where
  "lap_steps d gau_pyr [] lap_pyr = Inr lap_pyr"
| "lap_steps d gau_pyr (currLev # rest) lap_pyr =
     (case upsample d (gau_pyr ! currLev) of
        Inl e \<Rightarrow> Inl e
      | Inr upImg \<Rightarrow>
          (case binop (-) (gau_pyr ! (currLev - 1)) upImg of
             Inl e \<Rightarrow> Inl e
           | Inr l \<Rightarrow> lap_steps d gau_pyr rest (l # lap_pyr)))"

text \<open>
  \<open>levels\<close> is a non-negative Python integer. \<open>h, w = img.shape[:2]\<close> raises
  \<open>ValueError\<close> on an array of rank below 2. With \<open>levels = 0\<close> the factor \<open>f\<close> is the
  float \<open>0.5\<close>, which divides every integer, and \<open>gau_pyr[levels-1]\<close> is \<open>gau_pyr[-1]\<close>,
  the last element.
\<close>

definition construct_laplacian :: "ndarray \<Rightarrow> nat \<Rightarrow> error + ndarray list" where
  "construct_laplacian img levels =
     (case shape img of
        h # w # rest \<Rightarrow>
          if 1 \<le> levels \<and> \<not> (h mod 2 ^ (levels - 1) = 0 \<and> w mod 2 ^ (levels - 1) = 0)
          then Inl AssertionError
          else
            (case gau_steps [1..<levels] [img] of
               Inl e \<Rightarrow> Inl e
             | Inr gau_pyr \<Rightarrow>
                 lap_steps (dtype img) gau_pyr (rev [1..<levels])
                   [if levels = 0 then last gau_pyr else gau_pyr ! (levels - 1)])
      | _ \<Rightarrow> Inl ValueError)"

text \<open>
  \<open>a += b\<close>: the sum is computed in the promoted type, must have the shape of \<open>a\<close>, and
  is stored in \<open>a\<close> with the sample type of \<open>a\<close>. A float result cannot be stored in an
  8-bit array (\<open>UFuncTypeError\<close>).
\<close>

definition iadd :: "ndarray \<Rightarrow> ndarray \<Rightarrow> error + ndarray" where
  "iadd a b =
     (if dtype a = UInt8 \<and> dtype b \<noteq> UInt8 then Inl TypeError
      else
        (case broadcast_shapes (shape a) (shape b) of
           None \<Rightarrow> Inl ValueError
         | Some s \<Rightarrow>
             if s \<noteq> shape a then Inl ValueError
             else Inr (mk (dtype a) s (\<lambda>idx. cast (dtype a) (bget a idx + bget b idx)))))"

text \<open>The loop \<open>for lev in range(levels): copy_pyr[lev] *= weights[lev]\<close>.\<close>

fun scale_steps :: "nat list \<Rightarrow> pynum list \<Rightarrow> ndarray list \<Rightarrow> error + ndarray list" where
  "scale_steps [] weights copy_pyr = Inr copy_pyr"
| "scale_steps (lev # rest) weights copy_pyr =
     (if length weights \<le> lev then Inl IndexError
      else
        (case imul_scalar (copy_pyr ! lev) (weights ! lev) of
           Inl e \<Rightarrow> Inl e
         | Inr a \<Rightarrow> scale_steps rest weights (copy_pyr[lev := a])))"

text \<open>The loop \<open>for currLev in range(levels-1, 0, -1)\<close> of the reconstruction.\<close>

fun rec_steps :: "nat list \<Rightarrow> ndarray list \<Rightarrow> error + ndarray list" where
  "rec_steps [] copy_pyr = Inr copy_pyr"
| "rec_steps (currLev # rest) copy_pyr =
     (case upsample (dtype (copy_pyr ! 0)) (copy_pyr ! currLev) of
        Inl e \<Rightarrow> Inl e
      | Inr upImg \<Rightarrow>
          (case iadd (copy_pyr ! (currLev - 1)) upImg of
             Inl e \<Rightarrow> Inl e
           | Inr a \<Rightarrow> rec_steps rest (copy_pyr[currLev - 1 := a])))"

text \<open>
  \<open>copy.deepcopy(pyr)\<close> gives the function its own arrays; in this value model a list of
  arrays is already a list of values (the levels of \<open>pyr\<close> are taken to be distinct
  objects). \<open>copy_pyr[levels-1]\<close> raises \<open>IndexError\<close> on an empty list, and the unpacking
  of \<open>shape[:2]\<close> raises \<open>ValueError\<close> below rank 2. \<open>finalImg\<close> is never used.
\<close>

definition reconstruct_laplacian :: "ndarray list \<Rightarrow> pynum list option \<Rightarrow> error + ndarray" where
  "reconstruct_laplacian pyr weights =
     (let copy_pyr = pyr; levels = length copy_pyr
      in if levels = 0 then Inl IndexError
         else if length (shape (copy_pyr ! (levels - 1))) < 2 then Inl ValueError
         else
           (case weights of
              None \<Rightarrow>
                (case rec_steps (rev [1..<levels]) copy_pyr of
                   Inl e \<Rightarrow> Inl e
                 | Inr copy_pyr' \<Rightarrow> Inr (copy_pyr' ! 0))
            | Some ws \<Rightarrow>
                (case scale_steps [0..<levels] ws copy_pyr of
                   Inl e \<Rightarrow> Inl e
                 | Inr copy_pyr' \<Rightarrow>
                     (case rec_steps (rev [1..<levels]) copy_pyr' of
                        Inl e \<Rightarrow> Inl e
                      | Inr copy_pyr'' \<Rightarrow> Inr (copy_pyr'' ! 0)))))"

section \<open>The same functions on a store of buffers\<close>

text \<open>
  Who owns a buffer, and whether a call writes into a buffer of its caller, is not
  visible in the value model above. The store model makes it visible: a store is the
  list of all buffers, an array is named by the address of its buffer, every NumPy
  operation that creates an array allocates a new buffer at the end of the store, and
  the in-place operators \<open>*=\<close> and \<open>+=\<close> overwrite the buffer of their left operand.
  Each function below follows the same source lines as its value counterpart and
  computes the samples with it. A view (\<open>kernel[::-1,::-1]\<close>, \<open>kernel1d.T\<close>,
  \<open>blurImg[::2,::2,:]\<close>) is never written through in \<open>filtering.py\<close>; it is stored
  as a buffer of its own that holds the samples it shows.
\<close>

type_synonym addr = nat

type_synonym store = "ndarray list"

definition alloc :: "ndarray \<Rightarrow> store \<Rightarrow> addr \<times> store" where
  "alloc a st = (length st, st @ [a])"

definition cross_correlation_2d_st :: "store \<Rightarrow> addr \<Rightarrow> addr \<Rightarrow> error + addr \<times> store" where
  "cross_correlation_2d_st st img kern =
     (case cross_correlation_2d (st ! img) (st ! kern) of
        Inl e \<Rightarrow> Inl e
      | Inr out_img \<Rightarrow> Inr (alloc out_img st))"

definition convolve_2d_st :: "store \<Rightarrow> addr \<Rightarrow> addr \<Rightarrow> error + addr \<times> store" where
  "convolve_2d_st st img kern =
     (case flip2 (st ! kern) of
        Inl e \<Rightarrow> Inl e
      | Inr k \<Rightarrow> (case alloc k st of (kern', st1) \<Rightarrow> cross_correlation_2d_st st1 img kern'))"

definition gaussian_blur_kernel_2d_st ::
  "store \<Rightarrow> real \<Rightarrow> int \<Rightarrow> int \<Rightarrow> error + addr \<times> store" where
  "gaussian_blur_kernel_2d_st st sigma height width =
     (case gaussian_blur_kernel_2d sigma height width of
        Inl e \<Rightarrow> Inl e
      | Inr norm_filter \<Rightarrow> Inr (alloc norm_filter st))"

definition low_pass_st :: "store \<Rightarrow> addr \<Rightarrow> real \<Rightarrow> int \<Rightarrow> error + addr \<times> store" where
  "low_pass_st st img sigma ksize =
     (case gaussian_blur_kernel_2d_st st sigma ksize ksize of
        Inl e \<Rightarrow> Inl e
      | Inr (k, st1) \<Rightarrow> convolve_2d_st st1 img k)"

definition high_pass_st :: "store \<Rightarrow> addr \<Rightarrow> real \<Rightarrow> int \<Rightarrow> error + addr \<times> store" where
  "high_pass_st st img sigma ksize =
     (case gaussian_blur_kernel_2d_st st sigma ksize ksize of
        Inl e \<Rightarrow> Inl e
      | Inr (k, st1) \<Rightarrow>
          (case convolve_2d_st st1 img k of
             Inl e \<Rightarrow> Inl e
           | Inr (low, st2) \<Rightarrow>
               (case binop (-) (st2 ! img) (st2 ! low) of
                  Inl e \<Rightarrow> Inl e
                | Inr high \<Rightarrow> Inr (alloc high st2))))"

definition separable_filter_st :: "store \<Rightarrow> addr \<Rightarrow> addr \<Rightarrow> error + addr \<times> store" where
  "separable_filter_st st img kernel1d =
     (case cross_correlation_2d_st st img kernel1d of
        Inl e \<Rightarrow> Inl e
      | Inr (t, st1) \<Rightarrow>
          (case alloc (transpose_nd (st1 ! kernel1d)) st1 of
             (kernel1d_T, st2) \<Rightarrow> cross_correlation_2d_st st2 t kernel1d_T))"

text \<open>
  \<open>create_hybrid_image\<close>: the names \<open>img1\<close> and \<open>img2\<close> are rebound to new arrays by the
  conversion (when it happens) and by the filters, so that \<open>img1 *= ...\<close> and
  \<open>img2 *= ...\<close> write into the results of the filters.
\<close>

definition hybrid_normalize_st :: "store \<Rightarrow> addr \<Rightarrow> addr \<Rightarrow> addr \<times> addr \<times> store" where
  "hybrid_normalize_st st img1 img2 =
     (if dtype (st ! img1) = UInt8 then
        (case alloc (to_unit_float32 (st ! img1)) st of
           (img1', st1) \<Rightarrow>
             (case alloc (to_unit_float32 (st1 ! img2)) st1 of
                (img2', st2) \<Rightarrow> (img1', img2', st2)))
      else (img1, img2, st))"

definition hybrid_filter_st ::
  "store \<Rightarrow> string \<Rightarrow> addr \<Rightarrow> real \<Rightarrow> int \<Rightarrow> error + addr \<times> store" where
  "hybrid_filter_st st high_low img sigma ksize =
     (if high_low = ''low'' then low_pass_st st img sigma ksize
      else high_pass_st st img sigma ksize)"

definition imul_scalar_st :: "store \<Rightarrow> addr \<Rightarrow> pynum \<Rightarrow> error + store" where
  "imul_scalar_st st a x =
     (case imul_scalar (st ! a) x of Inl e \<Rightarrow> Inl e | Inr v \<Rightarrow> Inr (st[a := v]))"

definition create_hybrid_image_st ::
  "store \<Rightarrow> addr \<Rightarrow> addr \<Rightarrow> real \<Rightarrow> int \<Rightarrow> string \<Rightarrow> real \<Rightarrow> int \<Rightarrow> string \<Rightarrow> real
     \<Rightarrow> error + addr \<times> store" where
  "create_hybrid_image_st st img1 img2 sigma1 size1 high_low1 sigma2 size2 high_low2 mixin_ratio =
     (case hybrid_normalize_st st img1 img2 of
        (img1, img2, st1) \<Rightarrow>
     (case hybrid_filter_st st1 (lower high_low1) img1 sigma1 size1 of
        Inl e \<Rightarrow> Inl e
      | Inr (img1, st2) \<Rightarrow>
     (case hybrid_filter_st st2 (lower high_low2) img2 sigma2 size2 of
        Inl e \<Rightarrow> Inl e
      | Inr (img2, st3) \<Rightarrow>
     (case imul_scalar_st st3 img1 (PyFloat (2 * (1 - mixin_ratio))) of
        Inl e \<Rightarrow> Inl e
      | Inr st4 \<Rightarrow>
     (case imul_scalar_st st4 img2 (PyFloat (2 * mixin_ratio)) of
        Inl e \<Rightarrow> Inl e
      | Inr st5 \<Rightarrow>
     (case binop (+) (st5 ! img1) (st5 ! img2) of
        Inl e \<Rightarrow> Inl e
      | Inr hybrid_img \<Rightarrow>
          (case alloc hybrid_img st5 of
             (h, st6) \<Rightarrow> Inr (alloc (to_uint8_image (st6 ! h)) st6))))))))"

text \<open>
  \<open>construct_laplacian\<close>: \<open>gau_pyr.append(img)\<close> puts the caller's array itself in the
  list, and \<open>lap_pyr.append(gau_pyr[levels-1])\<close> takes an element of that list.
\<close>

fun gau_steps_st :: "nat list \<Rightarrow> addr \<Rightarrow> addr list \<Rightarrow> store \<Rightarrow> error + addr list \<times> store" where
  "gau_steps_st [] blur gau_pyr st = Inr (gau_pyr, st)"
| "gau_steps_st (currLev # rest) blur gau_pyr st =
     (case separable_filter_st st (gau_pyr ! (currLev - 1)) blur of
        Inl e \<Rightarrow> Inl e
      | Inr (blurImg, st1) \<Rightarrow>
          (case decimate (st1 ! blurImg) of
             Inl e \<Rightarrow> Inl e
           | Inr v \<Rightarrow>
               (case alloc v st1 of
                  (blurImg', st2) \<Rightarrow> gau_steps_st rest blur (gau_pyr @ [blurImg']) st2)))"

definition upsample_st :: "dtype \<Rightarrow> store \<Rightarrow> addr \<Rightarrow> error + addr \<times> store" where
  "upsample_st d st currImg =
     (case upsample d (st ! currImg) of Inl e \<Rightarrow> Inl e | Inr upImg \<Rightarrow> Inr (alloc upImg st))"

fun lap_steps_st ::
  "dtype \<Rightarrow> addr list \<Rightarrow> nat list \<Rightarrow> addr list \<Rightarrow> store \<Rightarrow> error + addr list \<times> store" where
  "lap_steps_st d gau_pyr [] lap_pyr st = Inr (lap_pyr, st)"
| "lap_steps_st d gau_pyr (currLev # rest) lap_pyr st =
     (case upsample_st d st (gau_pyr ! currLev) of
        Inl e \<Rightarrow> Inl e
      | Inr (upImg, st1) \<Rightarrow>
          (case binop (-) (st1 ! (gau_pyr ! (currLev - 1))) (st1 ! upImg) of
             Inl e \<Rightarrow> Inl e
           | Inr l \<Rightarrow>
               (case alloc l st1 of
                  (la, st2) \<Rightarrow> lap_steps_st d gau_pyr rest (la # lap_pyr) st2)))"

definition construct_laplacian_st :: "store \<Rightarrow> addr \<Rightarrow> nat \<Rightarrow> error + addr list \<times> store" where
  "construct_laplacian_st st img levels =
     (case shape (st ! img) of
        h # w # rest \<Rightarrow>
          if 1 \<le> levels \<and> \<not> (h mod 2 ^ (levels - 1) = 0 \<and> w mod 2 ^ (levels - 1) = 0)
          then Inl AssertionError
          else
            (case alloc blur_1d st of
               (blur, st1) \<Rightarrow>
                 (case gau_steps_st [1..<levels] blur [img] st1 of
                    Inl e \<Rightarrow> Inl e
                  | Inr (gau_pyr, st2) \<Rightarrow>
                      lap_steps_st (dtype (st ! img)) gau_pyr (rev [1..<levels])
                        [if levels = 0 then last gau_pyr else gau_pyr ! (levels - 1)] st2))
      | _ \<Rightarrow> Inl ValueError)"

text \<open>
  \<open>copy.deepcopy(pyr)\<close>: a new list of new arrays; an array that occurs twice in \<open>pyr\<close>
  is copied once (the memo of \<open>deepcopy\<close>).
\<close>

fun deepcopy_st :: "(addr \<times> addr) list \<Rightarrow> addr list \<Rightarrow> store \<Rightarrow> addr list \<times> store" where
  "deepcopy_st memo [] st = ([], st)"
| "deepcopy_st memo (a # as) st =
     (case map_of memo a of
        Some a' \<Rightarrow> (case deepcopy_st memo as st of (rs, st') \<Rightarrow> (a' # rs, st'))
      | None \<Rightarrow>
          (case alloc (st ! a) st of
             (a', st1) \<Rightarrow>
               (case deepcopy_st ((a, a') # memo) as st1 of (rs, st') \<Rightarrow> (a' # rs, st'))))"

fun scale_steps_st :: "nat list \<Rightarrow> pynum list \<Rightarrow> addr list \<Rightarrow> store \<Rightarrow> error + store" where
  "scale_steps_st [] weights copy_pyr st = Inr st"
| "scale_steps_st (lev # rest) weights copy_pyr st =
     (if length weights \<le> lev then Inl IndexError
      else
        (case imul_scalar_st st (copy_pyr ! lev) (weights ! lev) of
           Inl e \<Rightarrow> Inl e
         | Inr st1 \<Rightarrow> scale_steps_st rest weights copy_pyr st1))"

definition iadd_st :: "store \<Rightarrow> addr \<Rightarrow> addr \<Rightarrow> error + store" where
  "iadd_st st a b =
     (case iadd (st ! a) (st ! b) of Inl e \<Rightarrow> Inl e | Inr v \<Rightarrow> Inr (st[a := v]))"

fun rec_steps_st :: "nat list \<Rightarrow> addr list \<Rightarrow> store \<Rightarrow> error + store" where
  "rec_steps_st [] copy_pyr st = Inr st"
| "rec_steps_st (currLev # rest) copy_pyr st =
     (case upsample_st (dtype (st ! (copy_pyr ! 0))) st (copy_pyr ! currLev) of
        Inl e \<Rightarrow> Inl e
      | Inr (upImg, st1) \<Rightarrow>
          (case iadd_st st1 (copy_pyr ! (currLev - 1)) upImg of
             Inl e \<Rightarrow> Inl e
           | Inr st2 \<Rightarrow> rec_steps_st rest copy_pyr st2))"

definition reconstruct_laplacian_st ::
  "store \<Rightarrow> addr list \<Rightarrow> pynum list option \<Rightarrow> error + addr \<times> store" where
  "reconstruct_laplacian_st st pyr weights =
     (case deepcopy_st [] pyr st of
        (copy_pyr, st1) \<Rightarrow>
          let levels = length copy_pyr
          in if levels = 0 then Inl IndexError
             else if length (shape (st1 ! (copy_pyr ! (levels - 1)))) < 2 then Inl ValueError
             else
               (case weights of
                  None \<Rightarrow>
                    (case rec_steps_st (rev [1..<levels]) copy_pyr st1 of
                       Inl e \<Rightarrow> Inl e
                     | Inr st2 \<Rightarrow> Inr (copy_pyr ! 0, st2))
                | Some ws \<Rightarrow>
                    (case scale_steps_st [0..<levels] ws copy_pyr st1 of
                       Inl e \<Rightarrow> Inl e
                     | Inr st2 \<Rightarrow>
                         (case rec_steps_st (rev [1..<levels]) copy_pyr st2 of
                            Inl e \<Rightarrow> Inl e
                          | Inr st3 \<Rightarrow> Inr (copy_pyr ! 0, st3)))))"

text \<open>
  A call that starts in the store \<open>st\<close> and ends in \<open>st'\<close> has left its caller's buffers
  alone when \<open>st'\<close> begins with \<open>st\<close>; a buffer is new when its address lies beyond
  \<open>st\<close>.
\<close>

definition preserves :: "store \<Rightarrow> store \<Rightarrow> bool" where
  "preserves st st' \<longleftrightarrow> length st \<le> length st' \<and> take (length st) st' = st"

definition fresh :: "store \<Rightarrow> store \<Rightarrow> addr \<Rightarrow> bool" where
  "fresh st st' a \<longleftrightarrow> length st \<le> a \<and> a < length st'"

section \<open>Binary64 arithmetic: the filters with every float operation rounded\<close>

text \<open>
  The value model above computes float samples as real numbers. That decides what a
  function computes up to rounding, but not whether two float results are equal bit for
  bit. For \<open>low_pass\<close> and \<open>high_pass\<close> the same source lines are therefore modelled a
  second time with the arithmetic of the machine: every float operation returns the
  float nearest to its exact result, ties going to the even significand (IEEE 754).

  A float of precision \<open>p\<close> with exponents from \<open>emin\<close> to \<open>emax\<close> is an integer multiple
  of \<open>2^(e - p + 1)\<close>, where \<open>e\<close> is the exponent of its binade, \<open>emin\<close> for the subnormal
  numbers. \<open>float_round\<close> rounds a real to the nearest such multiple. Infinities and NaN
  are not represented: a result beyond the largest float is rounded in the last binade
  instead of becoming \<open>inf\<close>, so that the model agrees with the machine as long as no
  operation overflows.
\<close>

definition round_half_even :: "real \<Rightarrow> int" where
  "round_half_even x =
     (let f = \<lfloor>x\<rfloor>; r = x - of_int f
      in if r < 1 / 2 then f else if 1 / 2 < r then f + 1 else if even f then f else f + 1)"

primrec find_exponent :: "nat \<Rightarrow> int \<Rightarrow> real \<Rightarrow> int" where
  "find_exponent 0 e a = e"
| "find_exponent (Suc n) e a = (if a < 2 powi (e + 1) then e else find_exponent n (e + 1) a)"

definition float_exponent :: "int \<Rightarrow> int \<Rightarrow> real \<Rightarrow> int" where
  "float_exponent emin emax x = find_exponent (nat (emax - emin)) emin \<bar>x\<bar>"

definition float_round :: "nat \<Rightarrow> int \<Rightarrow> int \<Rightarrow> real \<Rightarrow> real" where
  "float_round p emin emax x =
     (let q = 2 powi (float_exponent emin emax x - int p + 1)
      in of_int (round_half_even (x / q)) * q)"

definition fl64 :: "real \<Rightarrow> real" where
  "fl64 = float_round 53 (- 1022) 1023"

definition fl32 :: "real \<Rightarrow> real" where
  "fl32 = float_round 24 (- 126) 127"

text \<open>The exponent and the spacing of the binary64 numbers around \<open>x\<close>, and the numbers themselves.\<close>

definition exponent64 :: "real \<Rightarrow> int" where
  "exponent64 x = float_exponent (- 1022) 1023 x"

definition quantum64 :: "real \<Rightarrow> real" where
  "quantum64 x = 2 powi (exponent64 x - 52)"

definition on_grid64 :: "real \<Rightarrow> bool" where
  "on_grid64 x \<longleftrightarrow> (\<exists>k::int. x = of_int k * quantum64 x)"

text \<open>
  An arithmetic result of sample type \<open>d\<close>: rounded to float32 or float64; an 8-bit
  result is wrapped by \<open>cast\<close> as before.
\<close>

definition rnd :: "dtype \<Rightarrow> real \<Rightarrow> real" where
  "rnd d v = (if d = Float64 then fl64 v else if d = Float32 then fl32 v else v)"

definition binop_fl :: "(real \<Rightarrow> real \<Rightarrow> real) \<Rightarrow> ndarray \<Rightarrow> ndarray \<Rightarrow> error + ndarray" where
  "binop_fl f a b = binop (\<lambda>x y. rnd (promote (dtype a) (dtype b)) (f x y)) a b"

text \<open>
  \<open>np.sum\<close> of a float array adds in the order of NumPy's pairwise summation: fewer
  than 8 numbers one after the other; up to 128 numbers in 8 interleaved partial sums
  that are combined as \<open>((r0+r1)+(r2+r3))+((r4+r5)+(r6+r7))\<close>, the numbers left over
  being added one after the other; more than 128 numbers in two halves, the first of a
  length that is a multiple of 8. The result is added to the initial value 0. An 8-bit
  array is summed exactly, in a wider integer type.
\<close>

fun sum_from :: "(real \<Rightarrow> real) \<Rightarrow> real \<Rightarrow> real list \<Rightarrow> real" where
  "sum_from r res [] = res"
| "sum_from r res (v # vs) = sum_from r (r (res + v)) vs"

fun accumulate8 :: "(real \<Rightarrow> real) \<Rightarrow> real list \<Rightarrow> real list \<Rightarrow> real list \<times> real list" where
  "accumulate8 r acc vs =
     (if length vs < 8 then (acc, vs)
      else accumulate8 r (map2 (\<lambda>a v. r (a + v)) acc (take 8 vs)) (drop 8 vs))"

definition block_sum :: "(real \<Rightarrow> real) \<Rightarrow> real list \<Rightarrow> real" where
  "block_sum r vs =
     (case accumulate8 r (take 8 vs) (drop 8 vs) of
        (acc, rest) \<Rightarrow>
          sum_from r
            (r (r (r (acc ! 0 + acc ! 1) + r (acc ! 2 + acc ! 3))
                + r (r (acc ! 4 + acc ! 5) + r (acc ! 6 + acc ! 7))))
            rest)"

function pairwise_sum :: "(real \<Rightarrow> real) \<Rightarrow> real list \<Rightarrow> real" where
  "pairwise_sum r vs =
     (if length vs < 8 then sum_from r 0 vs
      else if length vs \<le> 128 then block_sum r vs
      else r (pairwise_sum r (take (length vs div 2 - length vs div 2 mod 8) vs)
              + pairwise_sum r (drop (length vs div 2 - length vs div 2 mod 8) vs)))"
  by pat_completeness auto
termination
  apply (relation "measure (\<lambda>(r, vs). length vs)")
    apply simp
   apply simp
  subgoal for r vs
  proof -
    assume a: "\<not> length vs < 8" "\<not> length vs \<le> 128"
    have "length vs div 2 mod 8 < 8" by simp
    moreover have "64 \<le> length vs div 2" using a by linarith
    ultimately have "0 < length vs div 2 - length vs div 2 mod 8" by linarith
    then show ?thesis using a by simp
  qed
  done

declare accumulate8.simps [simp del]

declare pairwise_sum.simps [simp del]

definition np_sum_fl :: "ndarray \<Rightarrow> real" where
  "np_sum_fl a =
     (if dtype a = UInt8 then sum_list (buf a)
      else rnd (dtype a) (0 + pairwise_sum (rnd (dtype a)) (buf a)))"

text \<open>
  \<open>np.sum(kernel * window)\<close> as it is stored in the float64 array \<open>out_img\<close>, and
  \<open>cross_correlation_2d\<close> and \<open>convolve_2d\<close> with it.
\<close>

definition kernel_dot_fl :: "ndarray \<Rightarrow> ndarray \<Rightarrow> error + real" where
  "kernel_dot_fl kern win =
     (case binop_fl (*) kern win of Inl e \<Rightarrow> Inl e | Inr p \<Rightarrow> Inr (fl64 (np_sum_fl p)))"

definition pixel3_fl :: "ndarray \<Rightarrow> ndarray \<Rightarrow> nat \<Rightarrow> nat \<Rightarrow> nat \<Rightarrow> nat \<Rightarrow> error + real list" where
  "pixel3_fl kern img_pad h full_m w full_n =
     (case collect (map (\<lambda>c. case window3 img_pad h full_m w full_n c of
                                 Inl e \<Rightarrow> Inl e
                               | Inr win \<Rightarrow> kernel_dot_fl kern win) [0, 1, 2]) of
        Inl e \<Rightarrow> Inl e
      | Inr vs \<Rightarrow> Inr (vs @ replicate (shape img_pad ! 2 - 3) 0))"

definition cross_correlation_2d_fl :: "ndarray \<Rightarrow> ndarray \<Rightarrow> error + ndarray" where
  "cross_correlation_2d_fl img kern =
     (if length (shape img) = 2 then
        (case shape kern of
           [full_m, full_n] \<Rightarrow>
             let img_h = shape img ! 0; img_w = shape img ! 1;
                 half_m = full_m div 2; half_n = full_n div 2;
                 img_pad = pad2 img half_m half_n
             in (case collect (map (\<lambda>hw. kernel_dot_fl kern
                                           (window2 img_pad (hw ! 0) full_m (hw ! 1) full_n))
                                 (indices [img_h, img_w])) of
                   Inl e \<Rightarrow> Inl e
                 | Inr vs \<Rightarrow> Inr \<lparr>dtype = Float64, shape = shape img, buf = vs\<rparr>)
         | _ \<Rightarrow> Inl ValueError)
      else if length (shape img) = 3 then
        (case shape kern of
           [full_m, full_n] \<Rightarrow>
             let img_h = shape img ! 0; img_w = shape img ! 1;
                 half_m = full_m div 2; half_n = full_n div 2;
                 img_pad = pad3 img half_m half_n
             in (case collect (map (\<lambda>hw. pixel3_fl kern img_pad (hw ! 0) full_m (hw ! 1) full_n)
                                 (indices [img_h, img_w])) of
                   Inl e \<Rightarrow> Inl e
                 | Inr rows \<Rightarrow> Inr \<lparr>dtype = Float64, shape = shape img, buf = concat rows\<rparr>)
         | _ \<Rightarrow> Inl ValueError)
      else Inr (zeros_like img Float64))"

definition convolve_2d_fl :: "ndarray \<Rightarrow> ndarray \<Rightarrow> error + ndarray" where
  "convolve_2d_fl img kern =
     (case flip2 kern of Inl e \<Rightarrow> Inl e | Inr k \<Rightarrow> cross_correlation_2d_fl img k)"

text \<open>
  \<open>np.pi\<close> and \<open>np.e\<close> are the floats nearest to the two constants. The loop body of
  \<open>gaussian_blur_kernel_2d\<close> is evaluated operation by operation, each result rounded:
  \<open>2*pi*sigma\<close>, its reciprocal (\<open>ZeroDivisionError\<close> when the product is \<open>0.0\<close>),
  \<open>sigma**2\<close> (\<open>OverflowError\<close> when the square is beyond the float range),
  \<open>2*sigma**2\<close>, the quotient of the integer \<open>-((x-half_width)**2+(y-half_height)**2)\<close>,
  converted to a float, by it (\<open>ZeroDivisionError\<close> when the divisor is \<open>0.0\<close>), the
  power \<open>e**...\<close> and the product. The power is the function \<open>pow\<close> of the C library,
  taken here to return the float nearest to the exact power. The kernel is then divided,
  entry by entry, by its \<open>np.sum\<close>.
\<close>

definition pi64 :: real where
  "pi64 = 884279719003555 / 2 ^ 48"

definition e64 :: real where
  "e64 = 6121026514868073 / 2 ^ 51"

definition gauss_entry_fl :: "real \<Rightarrow> int \<Rightarrow> int \<Rightarrow> int \<Rightarrow> int \<Rightarrow> error + real" where
  "gauss_entry_fl sigma half_height half_width y x =
     (let two_pi_sigma = fl64 (fl64 (2 * pi64) * sigma)
      in if two_pi_sigma = 0 then Inl ZeroDivisionError
         else
           let coeff = fl64 (1 / two_pi_sigma)
           in if float_overflows (sigma\<^sup>2) then Inl OverflowError
              else
                let denom = fl64 (2 * fl64 (sigma\<^sup>2))
                in if denom = 0 then Inl ZeroDivisionError
                   else
                     let num = fl64 (- real_of_int ((x - half_width)\<^sup>2 + (y - half_height)\<^sup>2))
                     in Inr (fl64 (coeff * fl64 (e64 powr fl64 (num / denom)))))"

definition gaussian_blur_kernel_2d_fl :: "real \<Rightarrow> int \<Rightarrow> int \<Rightarrow> error + ndarray" where
  "gaussian_blur_kernel_2d_fl sigma height width =
     (if height < 0 \<or> width < 0 \<or> zeros_too_big height width then Inl ValueError
      else
        let half_height = height div 2; half_width = width div 2
        in case collect (map (\<lambda>idx. gauss_entry_fl sigma half_height half_width
                                       (int (idx ! 0)) (int (idx ! 1)))
                           (indices [nat height, nat width])) of
             Inl e \<Rightarrow> Inl e
           | Inr vs \<Rightarrow>
               let filt = \<lparr>dtype = Float64, shape = [nat height, nat width], buf = vs\<rparr>;
                   filter_sum = np_sum_fl filt;
                   norm_filter = filt\<lparr>buf := map (\<lambda>v. fl64 (v / filter_sum)) (buf filt)\<rparr>
               in Inr norm_filter)"

definition low_pass_fl :: "ndarray \<Rightarrow> real \<Rightarrow> int \<Rightarrow> error + ndarray" where
  "low_pass_fl img sigma ksize =
     (case gaussian_blur_kernel_2d_fl sigma ksize ksize of
        Inl e \<Rightarrow> Inl e
      | Inr k \<Rightarrow> convolve_2d_fl img k)"

definition high_pass_fl :: "ndarray \<Rightarrow> real \<Rightarrow> int \<Rightarrow> error + ndarray" where
  "high_pass_fl img sigma ksize =
     (case gaussian_blur_kernel_2d_fl sigma ksize ksize of
        Inl e \<Rightarrow> Inl e
      | Inr k \<Rightarrow>
          (case convolve_2d_fl img k of
             Inl e \<Rightarrow> Inl e
           | Inr low \<Rightarrow> binop_fl (-) img low))"

text \<open>
  An image on which the rounding shows: one row, a first sample of \<open>2^-300\<close> next to a
  second sample of 1. The names after it abbreviate the unnormalised entries of the
  3-by-3 kernel for \<open>sigma = 1\<close>.
\<close>

definition tiny_sample :: real where
  "tiny_sample = 1 / 2 ^ 300"

definition absorbed_image :: ndarray where
  "absorbed_image = \<lparr>dtype = Float64, shape = [1, 2], buf = [tiny_sample, 1]\<rparr>"

definition unit_two_pi :: real where
  "unit_two_pi = fl64 (fl64 (2 * pi64) * 1)"

definition unit_coeff :: real where
  "unit_coeff = fl64 (1 / unit_two_pi)"

definition unit_entry :: "real \<Rightarrow> real" where
  "unit_entry t = fl64 (unit_coeff * fl64 (e64 powr t))"

section \<open>The words of the specification\<close>

text \<open>
  The specification describes correlation through an image that is conceptually
  padded with zeros: the sample at a row and column that may lie outside the image,
  and the sum of the products of the kernel with the window around an output pixel.
  A kernel is a rank-2 buffer: in the theorems its shape is \<open>[m, n]\<close>. The sums and
  products of the specification are those of real arithmetic.
\<close>

definition padded2 :: "ndarray \<Rightarrow> int \<Rightarrow> int \<Rightarrow> real" where
  "padded2 img y x =
     (if 0 \<le> y \<and> y < int (shape img ! 0) \<and> 0 \<le> x \<and> x < int (shape img ! 1)
      then get img [nat y, nat x] else 0)"

definition padded3 :: "ndarray \<Rightarrow> int \<Rightarrow> int \<Rightarrow> nat \<Rightarrow> real" where
  "padded3 img y x c =
     (if 0 \<le> y \<and> y < int (shape img ! 0) \<and> 0 \<le> x \<and> x < int (shape img ! 1)
      then get img [nat y, nat x, c] else 0)"

definition correlation2 :: "ndarray \<Rightarrow> ndarray \<Rightarrow> nat \<Rightarrow> nat \<Rightarrow> real" where
  "correlation2 img kern h w =
     (\<Sum>i<shape kern ! 0. \<Sum>j<shape kern ! 1.
        get kern [i, j] *
        padded2 img (int h + int i - int (shape kern ! 0 div 2))
                    (int w + int j - int (shape kern ! 1 div 2)))"

definition correlation3 :: "ndarray \<Rightarrow> ndarray \<Rightarrow> nat \<Rightarrow> nat \<Rightarrow> nat \<Rightarrow> real" where
  "correlation3 img kern h w c =
     (\<Sum>i<shape kern ! 0. \<Sum>j<shape kern ! 1.
        get kern [i, j] *
        padded3 img (int h + int i - int (shape kern ! 0 div 2))
                    (int w + int j - int (shape kern ! 1 div 2)) c)"

text \<open>
  The same sums with every product stored in the sample type \<open>d\<close> before it is added.
  NumPy multiplies an 8-bit kernel with an 8-bit window in 8-bit arithmetic, so that for
  \<open>d = UInt8\<close> every product is reduced modulo 256; \<open>np.sum\<close> then adds the
  reduced products in a wider integer type.
\<close>

definition correlation2_in :: "dtype \<Rightarrow> ndarray \<Rightarrow> ndarray \<Rightarrow> nat \<Rightarrow> nat \<Rightarrow> real" where
  "correlation2_in d img kern h w =
     (\<Sum>i<shape kern ! 0. \<Sum>j<shape kern ! 1.
        cast d (get kern [i, j] *
                padded2 img (int h + int i - int (shape kern ! 0 div 2))
                            (int w + int j - int (shape kern ! 1 div 2))))"

definition correlation3_in :: "dtype \<Rightarrow> ndarray \<Rightarrow> ndarray \<Rightarrow> nat \<Rightarrow> nat \<Rightarrow> nat \<Rightarrow> real" where
  "correlation3_in d img kern h w c =
     (\<Sum>i<shape kern ! 0. \<Sum>j<shape kern ! 1.
        cast d (get kern [i, j] *
                padded3 img (int h + int i - int (shape kern ! 0 div 2))
                            (int w + int j - int (shape kern ! 1 div 2)) c))"

text \<open>The outer product of a single-row kernel with itself.\<close>

definition outer_product :: "ndarray \<Rightarrow> ndarray" where
  "outer_product kernel1d =
     mk (dtype kernel1d) [shape kernel1d ! 1, shape kernel1d ! 1]
        (\<lambda>idx. get kernel1d [0, idx ! 0] * get kernel1d [0, idx ! 1])"

text \<open>
  The value that the specification gives for the entry \<open>(y, x)\<close> of the Gaussian kernel
  before normalisation.
\<close>

definition gaussian_value :: "real \<Rightarrow> int \<Rightarrow> int \<Rightarrow> int \<Rightarrow> int \<Rightarrow> real" where
  "gaussian_value sigma height width y x =
     (1 / (2 * pi * sigma)) *
     exp (- real_of_int ((x - width div 2)\<^sup>2 + (y - height div 2)\<^sup>2) / (2 * sigma\<^sup>2))"

section \<open>Indices, buffers and broadcasting\<close>

lemma concat_blocks: "concat (map (\<lambda>i. map (\<lambda>k. i * p + k) [0..<p]) [0..<n]) = [0..<n * p]"
proof (induction n)
  case 0
  then show ?case by simp
next
  case (Suc n)
  have "map (\<lambda>k. n * p + k) [0..<p] = [n * p..<n * p + p]"
    by (simp add: map_add_upt add.commute)
  moreover have "[0..<n * p] @ [n * p..<n * p + p] = [0..<n * p + p]"
    using upt_add_eq_append[of 0 "n * p" p] by simp
  ultimately show ?case using Suc by (simp add: add.commute)
qed

lemma map_offset_indices: "map (offset s) (indices s) = [0..<prod_list s]"
proof (induction s)
  case Nil
  then show ?case by simp
next
  case (Cons n ns)
  have "map (offset (n # ns)) (indices (n # ns))
      = concat (map (\<lambda>i. map (\<lambda>js. i * prod_list ns + offset ns js) (indices ns)) [0..<n])"
    by (simp add: map_concat comp_def)
  also have "\<dots> = concat (map (\<lambda>i. map (\<lambda>k. i * prod_list ns + k) (map (offset ns) (indices ns))) [0..<n])"
    by (simp add: comp_def)
  also have "\<dots> = [0..<n * prod_list ns]"
    unfolding Cons.IH by (rule concat_blocks)
  finally show ?case by simp
qed

lemma length_indices: "length (indices s) = prod_list s"
  using arg_cong[OF map_offset_indices, of length s] by simp

lemma in_indices: "idx \<in> set (indices s) \<longleftrightarrow> list_all2 (<) idx s"
proof (induction s arbitrary: idx)
  case Nil
  then show ?case by auto
next
  case (Cons n ns)
  then show ?case by (cases idx) (auto simp: image_iff)
qed

lemma nth_map_indices:
  assumes "idx \<in> set (indices s)"
  shows "map f (indices s) ! offset s idx = f idx"
proof -
  from assms obtain k where k: "k < length (indices s)" "indices s ! k = idx"
    by (auto simp: in_set_conv_nth)
  have "offset s idx = map (offset s) (indices s) ! k" using k by simp
  also have "\<dots> = k" using k unfolding map_offset_indices by (simp add: length_indices)
  finally show ?thesis using k by simp
qed

lemma map_nth_offset:
  assumes "length xs = prod_list s"
  shows "map (\<lambda>idx. xs ! offset s idx) (indices s) = xs"
proof -
  have "map (\<lambda>idx. xs ! offset s idx) (indices s) = map ((!) xs) (map (offset s) (indices s))"
    by (simp add: comp_def)
  also have "\<dots> = xs" unfolding map_offset_indices using assms map_nth[of xs] by simp
  finally show ?thesis .
qed

lemma dtype_mk [simp]: "dtype (mk d s f) = d"
  and shape_mk [simp]: "shape (mk d s f) = s"
  and buf_mk: "buf (mk d s f) = map f (indices s)"
  by (simp_all add: mk_def)

lemma get_mk: "idx \<in> set (indices s) \<Longrightarrow> get (mk d s f) idx = f idx"
  by (simp add: get_def buf_mk nth_map_indices)

lemma mk_cong: "(\<And>idx. idx \<in> set (indices s) \<Longrightarrow> f idx = g idx) \<Longrightarrow> mk d s f = mk d s g"
  by (simp add: mk_def)

lemma mk_get: "length (buf a) = prod_list (shape a) \<Longrightarrow> mk (dtype a) (shape a) (get a) = a"
  unfolding mk_def get_def by (simp add: map_nth_offset)

lemma length_buf_mk [simp]: "length (buf (mk d s f)) = prod_list s"
  by (simp add: buf_mk length_indices)

lemma in_indices2: "idx \<in> set (indices [m, n]) \<longleftrightarrow> (\<exists>i j. idx = [i, j] \<and> i < m \<and> j < n)"
  unfolding in_indices by (auto simp: list_all2_Cons2)

lemma in_indices3:
  "idx \<in> set (indices [m, n, p]) \<longleftrightarrow> (\<exists>i j k. idx = [i, j, k] \<and> i < m \<and> j < n \<and> k < p)"
  unfolding in_indices by (auto simp: list_all2_Cons2)

lemma bshape_rev_same [simp]: "bshape_rev s s = Some s"
  by (induction s) auto

lemma broadcast_shapes_same [simp]: "broadcast_shapes s s = Some s"
  by (simp add: broadcast_shapes_def)

lemma bidx_rev_same: "list_all2 (<) js ss \<Longrightarrow> bidx_rev ss js = js"
  by (induction ss js rule: bidx_rev.induct) auto

lemma bget_same: "idx \<in> set (indices (shape a)) \<Longrightarrow> bget a idx = get a idx"
  unfolding bget_def in_indices by (simp add: bidx_rev_same list_all2_rev)

lemma binop_same:
  assumes "shape a = shape b"
  shows "binop f a b =
           Inr (mk (promote (dtype a) (dtype b)) (shape a)
                  (\<lambda>idx. cast (promote (dtype a) (dtype b)) (f (get a idx) (get b idx))))"
  using assms by (auto simp: binop_def Let_def bget_same intro!: mk_cong)

lemma collect_map_Inr:
  "(\<And>x. x \<in> set xs \<Longrightarrow> f x = Inr (g x)) \<Longrightarrow> collect (map f xs) = Inr (map g xs)"
  by (induction xs) auto

lemma collect_Inl: "collect rs = Inl e \<Longrightarrow> Inl e \<in> set rs"
  by (induction rs rule: collect.induct) (auto split: sum.splits)

lemma sum_list_concat_map:
  "sum_list (concat xss) = sum_list (map sum_list (xss :: 'a::comm_monoid_add list list))"
  by (induction xss) auto

lemma sum_list_indices2:
  "sum_list (map f (indices [m, n])) = (\<Sum>i<m. \<Sum>j<n. (f [i, j] :: real))"
proof -
  have "sum_list (map f (indices [m, n]))
      = sum_list (map (\<lambda>i. sum_list (map (\<lambda>j. f [i, j]) [0..<n])) [0..<m])"
    by (simp add: map_concat sum_list_concat_map comp_def)
  also have "\<dots> = (\<Sum>i<m. \<Sum>j<n. f [i, j])"
    by (simp add: interv_sum_list_conv_sum_set_nat atLeast0LessThan)
  finally show ?thesis .
qed

section \<open>What \<open>cross_correlation_2d\<close> computes\<close>

declare indices.simps [simp del]

lemma promote_float [simp]: "d \<noteq> UInt8 \<Longrightarrow> promote d e \<noteq> UInt8"
  "e \<noteq> UInt8 \<Longrightarrow> promote d e \<noteq> UInt8"
  by (cases d; cases e; simp add: promote_def)+

lemma cast_float [simp]: "d \<noteq> UInt8 \<Longrightarrow> cast d x = x"
  by (simp add: cast_def)

lemma get_pad2:
  assumes "shape img = [H, W]" "y < H + 2 * hm" "x < W + 2 * hn"
  shows "get (pad2 img hm hn) [y, x] = padded2 img (int y - int hm) (int x - int hn)"
proof -
  have "[y, x] \<in> set (indices [H + 2 * hm, W + 2 * hn])"
    using assms by (simp add: in_indices2)
  then show ?thesis
    using assms(1) by (auto simp: pad2_def Let_def get_mk padded2_def nat_diff_distrib')
qed

lemma get_pad3:
  assumes "shape img = [H, W, C]" "y < H + 2 * hm" "x < W + 2 * hn" "c < C"
  shows "get (pad3 img hm hn) [y, x, c] = padded3 img (int y - int hm) (int x - int hn) c"
proof -
  have "[y, x, c] \<in> set (indices [H + 2 * hm, W + 2 * hn, C])"
    using assms by (simp add: in_indices3)
  then show ?thesis
    using assms(1) by (auto simp: pad3_def Let_def get_mk padded3_def nat_diff_distrib')
qed

lemma promote_eq_UInt8: "promote a b = UInt8 \<longleftrightarrow> a = UInt8 \<and> b = UInt8"
  by (cases a; cases b; simp add: promote_def)

lemma correlation2_in_float: "d \<noteq> UInt8 \<Longrightarrow> correlation2_in d img kern h w = correlation2 img kern h w"
  by (simp add: correlation2_in_def correlation2_def)

lemma correlation3_in_float:
  "d \<noteq> UInt8 \<Longrightarrow> correlation3_in d img kern h w c = correlation3 img kern h w c"
  by (simp add: correlation3_in_def correlation3_def)

lemma kernel_dot_mk_in:
  assumes "shape kern = [m, n]"
  shows "kernel_dot kern (mk d [m, n] g)
           = Inr (\<Sum>i<m. \<Sum>j<n. cast (promote (dtype kern) d) (get kern [i, j] * g [i, j]))"
proof -
  have "binop (*) kern (mk d [m, n] g)
      = Inr (mk (promote (dtype kern) d) [m, n]
               (\<lambda>idx. cast (promote (dtype kern) d) (get kern idx * g idx)))"
    using assms by (auto simp: binop_same get_mk intro!: mk_cong)
  then show ?thesis
    by (simp add: kernel_dot_def np_sum_def buf_mk sum_list_indices2)
qed

lemma kernel_dot_mk:
  assumes "shape kern = [m, n]" "dtype kern \<noteq> UInt8"
  shows "kernel_dot kern (mk d [m, n] g) = Inr (\<Sum>i<m. \<Sum>j<n. get kern [i, j] * g [i, j])"
  using assms by (simp add: kernel_dot_mk_in)

lemma kernel_dot_window2:
  assumes "shape kern = [m, n]"
    and "shape p = [PH, PW]" "h + m \<le> PH" "w + n \<le> PW"
  shows "kernel_dot kern (window2 p h m w n)
           = Inr (\<Sum>i<m. \<Sum>j<n. cast (promote (dtype kern) (dtype p))
                                      (get kern [i, j] * get p [h + i, w + j]))"
proof -
  have "window2 p h m w n = mk (dtype p) [m, n] (\<lambda>idx. get p [h + idx ! 0, w + idx ! 1])"
    using assms by (simp add: window2_def min_def)
  then show ?thesis using assms(1) by (simp add: kernel_dot_mk_in)
qed

lemma window3_ok:
  assumes "shape p = [PH, PW, C]" "h + m \<le> PH" "w + n \<le> PW" "c < C"
  shows "window3 p h m w n c = Inr (mk (dtype p) [m, n] (\<lambda>idx. get p [h + idx ! 0, w + idx ! 1, c]))"
  using assms by (simp add: window3_def min_def)

lemma window3_err:
  assumes "shape p = [PH, PW, C]" "\<not> c < C"
  shows "window3 p h m w n c = Inl IndexError"
  using assms by (simp add: window3_def)

lemma half_bound: "m \<le> Suc (2 * (m div 2))"
  by presburger

lemma dtype_pad [simp]: "dtype (pad2 img hm hn) = dtype img" "dtype (pad3 img hm hn) = dtype img"
  by (simp_all add: pad2_def pad3_def Let_def)

lemma cc2_in:
  assumes img: "shape img = [H, W]" and k: "shape kern = [m, n]"
  shows "cross_correlation_2d img kern =
           Inr (mk Float64 [H, W]
                  (\<lambda>idx. correlation2_in (promote (dtype kern) (dtype img)) img kern
                           (idx ! 0) (idx ! 1)))"
proof -
  let ?p = "pad2 img (m div 2) (n div 2)"
  let ?d = "promote (dtype kern) (dtype img)"
  have sp: "shape ?p = [H + 2 * (m div 2), W + 2 * (n div 2)]"
    using img by (simp add: pad2_def Let_def)
  have px: "kernel_dot kern (window2 ?p (hw ! 0) m (hw ! 1) n)
              = Inr (correlation2_in ?d img kern (hw ! 0) (hw ! 1))"
    if "hw \<in> set (indices [H, W])" for hw
  proof -
    from that obtain h w where hw: "hw = [h, w]" "h < H" "w < W"
      by (auto simp: in_indices2)
    have b: "h + m \<le> H + 2 * (m div 2)" "w + n \<le> W + 2 * (n div 2)"
      using hw half_bound[of m] half_bound[of n] by linarith+
    have "kernel_dot kern (window2 ?p h m w n)
            = Inr (\<Sum>i<m. \<Sum>j<n. cast ?d (get kern [i, j] * get ?p [h + i, w + j]))"
      using kernel_dot_window2[OF k sp b] by simp
    also have "(\<Sum>i<m. \<Sum>j<n. cast ?d (get kern [i, j] * get ?p [h + i, w + j]))
             = correlation2_in ?d img kern h w"
      unfolding correlation2_in_def using k
    proof (simp, intro sum.cong refl)
      fix i j assume "i \<in> {..<m}" "j \<in> {..<n}"
      then have "h + i < H + 2 * (m div 2)" "w + j < W + 2 * (n div 2)"
        using b by auto
      then show "cast ?d (get kern [i, j] * get ?p [h + i, w + j]) =
            cast ?d (get kern [i, j] *
                     padded2 img (int h + int i - int (m div 2)) (int w + int j - int (n div 2)))"
        using get_pad2[OF img, of "h + i" "m div 2" "w + j" "n div 2"] by simp
    qed
    finally show ?thesis using hw by simp
  qed
  have "collect (map (\<lambda>hw. kernel_dot kern (window2 ?p (hw ! 0) m (hw ! 1) n)) (indices [H, W]))
          = Inr (map (\<lambda>hw. correlation2_in ?d img kern (hw ! 0) (hw ! 1)) (indices [H, W]))"
    by (rule collect_map_Inr) (rule px)
  then show ?thesis
    using img k by (simp add: cross_correlation_2d_def Let_def mk_def)
qed

lemma cc2_any:
  assumes img: "shape img = [H, W]" and k: "shape kern = [m, n]"
    and f: "dtype kern \<noteq> UInt8 \<or> dtype img \<noteq> UInt8"
  shows "cross_correlation_2d img kern =
           Inr (mk Float64 [H, W] (\<lambda>idx. correlation2 img kern (idx ! 0) (idx ! 1)))"
proof -
  have "promote (dtype kern) (dtype img) \<noteq> UInt8" using f by (simp add: promote_eq_UInt8)
  then show ?thesis unfolding cc2_in[OF img k] by (simp add: correlation2_in_float)
qed

lemma cc2:
  assumes img: "shape img = [H, W]" and k: "shape kern = [m, n]" "dtype kern \<noteq> UInt8"
  shows "cross_correlation_2d img kern =
           Inr (mk Float64 [H, W] (\<lambda>idx. correlation2 img kern (idx ! 0) (idx ! 1)))"
  using cc2_any[OF img k(1)] k(2) by simp

lemma concat_concat: "concat (concat xss) = concat (map concat xss)"
  by (induction xss) auto

lemma indices_append:
  "indices (s @ t) = concat (map (\<lambda>i. map ((@) i) (indices t)) (indices s))"
proof (induction s)
  case Nil
  have "(@) ([] :: nat list) = (\<lambda>x. x)" by (rule ext) simp
  then show ?case by (simp add: indices.simps)
next
  case (Cons n ns)
  have [simp]: "\<And>x xs. (@) (x # xs) = (\<lambda>ys. (x :: nat) # (xs @ ys))"
    by (rule ext) simp
  show ?case
    by (simp add: indices.simps Cons.IH map_concat concat_concat comp_def)
qed

lemma indices_1: "indices [C] = map (\<lambda>c. [c]) [0..<C]"
  by (simp add: indices.simps comp_def)

lemma map_indices3:
  "map G (indices [H, W, C]) = concat (map (\<lambda>hw. map (\<lambda>c. G (hw @ [c])) [0..<C]) (indices [H, W]))"
proof -
  have "indices [H, W, C] = indices ([H, W] @ [C])" by simp
  also have "\<dots> = concat (map (\<lambda>hw. map (\<lambda>c. hw @ [c]) [0..<C]) (indices [H, W]))"
    unfolding indices_append indices_1 by (simp add: comp_def)
  finally show ?thesis by (simp add: map_concat comp_def)
qed

lemma upt_3:
  assumes "3 \<le> C" shows "[0..<C] = [0, 1, 2] @ [3..<C]"
proof -
  have "[0..<C] = [0..<3] @ [3..<C]"
    using assms upt_add_eq_append[of 0 3 "C - 3"] by simp
  moreover have "[0..<3] = [0, 1, 2::nat]" by (simp add: upt_rec numeral_eq_Suc)
  ultimately show ?thesis by simp
qed

lemma channel_sum_in:
  assumes img: "shape img = [H, W, C]" and k: "shape kern = [m, n]"
    and that: "h < H" "w < W" "c < C"
  shows "(case window3 (pad3 img (m div 2) (n div 2)) h m w n c of
            Inl e \<Rightarrow> Inl e | Inr win \<Rightarrow> kernel_dot kern win)
          = Inr (correlation3_in (promote (dtype kern) (dtype img)) img kern h w c)"
proof -
  let ?p = "pad3 img (m div 2) (n div 2)"
  let ?d = "promote (dtype kern) (dtype img)"
  have sp: "shape ?p = [H + 2 * (m div 2), W + 2 * (n div 2), C]"
    using img by (simp add: pad3_def Let_def)
  have b: "h + m \<le> H + 2 * (m div 2)" "w + n \<le> W + 2 * (n div 2)"
    using that half_bound[of m] half_bound[of n] by linarith+
  have "(\<Sum>i<m. \<Sum>j<n. cast ?d (get kern [i, j] * get ?p [h + i, w + j, c]))
           = correlation3_in ?d img kern h w c"
    unfolding correlation3_in_def using k
  proof (simp, intro sum.cong refl)
    fix i j assume "i \<in> {..<m}" "j \<in> {..<n}"
    then have "h + i < H + 2 * (m div 2)" "w + j < W + 2 * (n div 2)"
      using b by auto
    then show "cast ?d (get kern [i, j] * get ?p [h + i, w + j, c]) =
          cast ?d (get kern [i, j] *
                   padded3 img (int h + int i - int (m div 2)) (int w + int j - int (n div 2)) c)"
      using get_pad3[OF img, of "h + i" "m div 2" "w + j" "n div 2" c] that by simp
  qed
  then show ?thesis
    using window3_ok[OF sp b that(3)] k by (simp add: kernel_dot_mk_in)
qed

lemma channel_sum:
  assumes img: "shape img = [H, W, C]" and k: "shape kern = [m, n]" "dtype kern \<noteq> UInt8"
    and that: "h < H" "w < W" "c < C"
  shows "(case window3 (pad3 img (m div 2) (n div 2)) h m w n c of
            Inl e \<Rightarrow> Inl e | Inr win \<Rightarrow> kernel_dot kern win)
          = Inr (correlation3 img kern h w c)"
  using channel_sum_in[OF img k(1) that] k(2) by (simp add: correlation3_in_float)

lemma cc3_in:
  assumes img: "shape img = [H, W, C]" and C: "3 \<le> C"
    and k: "shape kern = [m, n]"
  shows "cross_correlation_2d img kern =
           Inr (mk Float64 [H, W, C]
                  (\<lambda>idx. if idx ! 2 < 3
                         then correlation3_in (promote (dtype kern) (dtype img)) img kern
                                (idx ! 0) (idx ! 1) (idx ! 2)
                         else 0))"
proof -
  let ?p = "pad3 img (m div 2) (n div 2)"
  let ?d = "promote (dtype kern) (dtype img)"
  let ?G = "\<lambda>idx. if idx ! 2 < 3 then correlation3_in ?d img kern (idx ! 0) (idx ! 1) (idx ! 2) else 0"
  have sp: "shape ?p = [H + 2 * (m div 2), W + 2 * (n div 2), C]"
    using img by (simp add: pad3_def Let_def)
  note ch = channel_sum_in[OF img k]
  have px: "pixel3 kern ?p (hw ! 0) m (hw ! 1) n = Inr (map (\<lambda>c. ?G (hw @ [c])) [0..<C])"
    if "hw \<in> set (indices [H, W])" for hw
  proof -
    from that obtain h w where hw: "hw = [h, w]" "h < H" "w < W"
      by (auto simp: in_indices2)
    have "map (\<lambda>c. if c < 3 then correlation3_in ?d img kern h w c else 0) [3..<C]
            = map (\<lambda>c. 0) [3..<C]"
      by (rule map_cong) auto
    then have "map (\<lambda>c. if c < 3 then correlation3_in ?d img kern h w c else 0) [0..<C]
           = [correlation3_in ?d img kern h w 0, correlation3_in ?d img kern h w 1,
              correlation3_in ?d img kern h w 2]
             @ replicate (C - 3) 0"
      unfolding upt_3[OF C] by (simp add: map_replicate_const)
    moreover have "pixel3 kern ?p h m w n
           = Inr ([correlation3_in ?d img kern h w 0, correlation3_in ?d img kern h w 1,
                   correlation3_in ?d img kern h w 2]
             @ replicate (C - 3) 0)"
      using ch[OF hw(2,3), of 0] ch[OF hw(2,3), of 1] ch[OF hw(2,3), of 2] C sp
      by (simp add: pixel3_def)
    ultimately show ?thesis unfolding hw(1) by (simp cong: if_cong)
  qed
  have "collect (map (\<lambda>hw. pixel3 kern ?p (hw ! 0) m (hw ! 1) n) (indices [H, W]))
          = Inr (map (\<lambda>hw. map (\<lambda>c. ?G (hw @ [c])) [0..<C]) (indices [H, W]))"
    by (rule collect_map_Inr) (rule px)
  then show ?thesis
    using img k by (simp add: cross_correlation_2d_def Let_def mk_def map_indices3)
qed

lemma cc3_any:
  assumes img: "shape img = [H, W, C]" and C: "3 \<le> C"
    and k: "shape kern = [m, n]" and f: "dtype kern \<noteq> UInt8 \<or> dtype img \<noteq> UInt8"
  shows "cross_correlation_2d img kern =
           Inr (mk Float64 [H, W, C]
                  (\<lambda>idx. if idx ! 2 < 3 then correlation3 img kern (idx ! 0) (idx ! 1) (idx ! 2)
                         else 0))"
proof -
  have "promote (dtype kern) (dtype img) \<noteq> UInt8" using f by (simp add: promote_eq_UInt8)
  then show ?thesis
    unfolding cc3_in[OF img C k] by (simp add: correlation3_in_float cong: if_cong)
qed

lemma cc3:
  assumes img: "shape img = [H, W, C]" and C: "3 \<le> C"
    and k: "shape kern = [m, n]" "dtype kern \<noteq> UInt8"
  shows "cross_correlation_2d img kern =
           Inr (mk Float64 [H, W, C]
                  (\<lambda>idx. if idx ! 2 < 3 then correlation3 img kern (idx ! 0) (idx ! 1) (idx ! 2)
                         else 0))"
  using cc3_any[OF img C k(1)] k(2) by simp

lemma collect_map_Inl:
  "xs \<noteq> [] \<Longrightarrow> (\<And>x. x \<in> set xs \<Longrightarrow> f x = Inl e) \<Longrightarrow> collect (map f xs) = Inl e"
  by (cases xs) auto

lemma indices_eq_Nil: "indices s = [] \<longleftrightarrow> prod_list s = 0"
  using length_indices[of s] by (metis length_0_conv)

lemma cc3_few_channels_any:
  assumes img: "shape img = [H, W, C]" and C: "C < 3" and pos: "0 < H" "0 < W"
    and k: "shape kern = [m, n]"
  shows "cross_correlation_2d img kern = Inl IndexError"
proof -
  let ?p = "pad3 img (m div 2) (n div 2)"
  have sp: "shape ?p = [H + 2 * (m div 2), W + 2 * (n div 2), C]"
    using img by (simp add: pad3_def Let_def)
  note ch = channel_sum_in[OF img k]
  have px: "pixel3 kern ?p (hw ! 0) m (hw ! 1) n = Inl IndexError"
    if "hw \<in> set (indices [H, W])" for hw
  proof -
    from that obtain h w where hw: "hw = [h, w]" "h < H" "w < W"
      by (auto simp: in_indices2)
    consider "C = 0" | "C = 1" | "C = 2" using C by linarith
    then have "pixel3 kern ?p h m w n = Inl IndexError"
    proof cases
      case 1
      then show ?thesis using window3_err[OF sp, of 0] by (simp add: pixel3_def)
    next
      case 2
      then show ?thesis
        using ch[OF hw(2,3), of 0] window3_err[OF sp, of 1] by (simp add: pixel3_def)
    next
      case 3
      then show ?thesis
        using ch[OF hw(2,3), of 0] ch[OF hw(2,3), of 1] window3_err[OF sp, of 2]
        by (simp add: pixel3_def)
    qed
    then show ?thesis using hw by simp
  qed
  have "indices [H, W] \<noteq> []" using pos by (simp add: indices_eq_Nil)
  then have "collect (map (\<lambda>hw. pixel3 kern ?p (hw ! 0) m (hw ! 1) n) (indices [H, W]))
          = Inl IndexError"
    by (rule collect_map_Inl) (rule px)
  then show ?thesis
    using img k by (simp add: cross_correlation_2d_def Let_def)
qed

lemma cc3_few_channels:
  assumes img: "shape img = [H, W, C]" and C: "C < 3" and pos: "0 < H" "0 < W"
    and k: "shape kern = [m, n]" "dtype kern \<noteq> UInt8"
  shows "cross_correlation_2d img kern = Inl IndexError"
  using cc3_few_channels_any[OF img C pos k(1)] .

lemma cc3_empty:
  assumes img: "shape img = [H, W, C]" and e: "H = 0 \<or> W = 0"
    and k: "shape kern = [m, n]"
  shows "cross_correlation_2d img kern = Inr (mk Float64 [H, W, C] (\<lambda>idx. 0))"
proof -
  have "indices [H, W] = []" "indices [H, W, C] = []"
    using e by (auto simp: indices_eq_Nil)
  then show ?thesis
    using img k by (simp add: cross_correlation_2d_def Let_def mk_def)
qed

section \<open>Two passes with a row kernel\<close>

lemma sum_lessThan_1: "(\<Sum>i<(1::nat). f i) = (f 0 :: real)"
  by (simp add: lessThan_Suc)

lemma shape_transpose_nd [simp]: "shape (transpose_nd a) = rev (shape a)"
  and dtype_transpose_nd [simp]: "dtype (transpose_nd a) = dtype a"
  by (simp_all add: transpose_nd_def)

lemma get_transpose_row:
  assumes "shape k = [1, n]" "i < n"
  shows "get (transpose_nd k) [i, 0] = get k [0, i]"
proof -
  have "[i, 0] \<in> set (indices [n, 1])" using assms by (simp add: in_indices2)
  then show ?thesis using assms by (simp add: transpose_nd_def get_mk)
qed

lemma get_outer_product:
  assumes "shape k = [1, n]" "i < n" "j < n"
  shows "get (outer_product k) [i, j] = get k [0, i] * get k [0, j]"
proof -
  have "[i, j] \<in> set (indices [n, n])" using assms by (simp add: in_indices2)
  then show ?thesis using assms by (simp add: outer_product_def get_mk)
qed

lemma correlation2_row:
  assumes "shape k = [1, n]"
  shows "correlation2 img k h w
           = (\<Sum>j<n. get k [0, j] * padded2 img (int h) (int w + int j - int (n div 2)))"
  using assms by (simp add: correlation2_def sum_lessThan_1)

lemma correlation3_row:
  assumes "shape k = [1, n]"
  shows "correlation3 img k h w c
           = (\<Sum>j<n. get k [0, j] * padded3 img (int h) (int w + int j - int (n div 2)) c)"
  using assms by (simp add: correlation3_def sum_lessThan_1)

lemma padded2_out: "\<not> (0 \<le> y \<and> y < int (shape img ! 0)) \<Longrightarrow> padded2 img y x = 0"
  by (auto simp: padded2_def)

lemma padded3_out: "\<not> (0 \<le> y \<and> y < int (shape img ! 0)) \<Longrightarrow> padded3 img y x c = 0"
  by (auto simp: padded3_def)

lemma padded2_first_pass:
  assumes img: "shape img = [H, W]" and k: "shape k = [1, n]" and w: "w < W"
  shows "padded2 (mk Float64 [H, W] (\<lambda>idx. correlation2 img k (idx ! 0) (idx ! 1))) y (int w)
           = (\<Sum>j<n. get k [0, j] * padded2 img y (int w + int j - int (n div 2)))"
proof (cases "0 \<le> y \<and> y < int H")
  case True
  then have "[nat y, w] \<in> set (indices [H, W])" using w by (simp add: in_indices2 nat_less_iff)
  then show ?thesis
    using True w by (simp add: padded2_def[of "mk _ _ _"] get_mk correlation2_row[OF k])
next
  case False
  then show ?thesis using img by (simp add: padded2_out)
qed

lemma padded3_first_pass:
  assumes img: "shape img = [H, W, C]" and k: "shape k = [1, n]" and w: "w < W" and c: "c < 3" "c < C"
  shows "padded3 (mk Float64 [H, W, C]
                   (\<lambda>idx. if idx ! 2 < 3 then correlation3 img k (idx ! 0) (idx ! 1) (idx ! 2) else 0))
            y (int w) c
           = (\<Sum>j<n. get k [0, j] * padded3 img y (int w + int j - int (n div 2)) c)"
proof (cases "0 \<le> y \<and> y < int H")
  case True
  then have "[nat y, w, c] \<in> set (indices [H, W, C])" using w c by (simp add: in_indices3 nat_less_iff)
  then show ?thesis
    using True w c by (simp add: padded3_def[of "mk _ _ _"] get_mk correlation3_row[OF k])
next
  case False
  then show ?thesis using img by (simp add: padded3_out)
qed

lemma second_pass2:
  assumes img: "shape img = [H, W]" and k: "shape k = [1, n]" and w: "w < W"
  shows "correlation2 (mk Float64 [H, W] (\<lambda>idx. correlation2 img k (idx ! 0) (idx ! 1)))
            (transpose_nd k) h w
         = correlation2 img (outer_product k) h w"
proof -
  let ?T = "mk Float64 [H, W] (\<lambda>idx. correlation2 img k (idx ! 0) (idx ! 1))"
  have "correlation2 ?T (transpose_nd k) h w
      = (\<Sum>i<n. get k [0, i] * padded2 ?T (int h + int i - int (n div 2)) (int w))"
    using k by (simp add: correlation2_def sum_lessThan_1 get_transpose_row[OF k])
  also have "\<dots> = (\<Sum>i<n. \<Sum>j<n. get k [0, i] * get k [0, j] *
                 padded2 img (int h + int i - int (n div 2)) (int w + int j - int (n div 2)))"
    by (simp only: padded2_first_pass[OF img k w] sum_distrib_left mult.assoc)
  also have "\<dots> = correlation2 img (outer_product k) h w"
    using k by (simp add: correlation2_def outer_product_def[THEN arg_cong, of shape] get_outer_product[OF k])
  finally show ?thesis .
qed

lemma second_pass3:
  assumes img: "shape img = [H, W, C]" and k: "shape k = [1, n]" and w: "w < W"
    and c: "c < 3" "c < C"
  shows "correlation3 (mk Float64 [H, W, C]
                   (\<lambda>idx. if idx ! 2 < 3 then correlation3 img k (idx ! 0) (idx ! 1) (idx ! 2) else 0))
            (transpose_nd k) h w c
         = correlation3 img (outer_product k) h w c"
proof -
  let ?T = "mk Float64 [H, W, C]
             (\<lambda>idx. if idx ! 2 < 3 then correlation3 img k (idx ! 0) (idx ! 1) (idx ! 2) else 0)"
  have "correlation3 ?T (transpose_nd k) h w c
      = (\<Sum>i<n. get k [0, i] * padded3 ?T (int h + int i - int (n div 2)) (int w) c)"
    using k by (simp add: correlation3_def sum_lessThan_1 get_transpose_row[OF k])
  also have "\<dots> = (\<Sum>i<n. \<Sum>j<n. get k [0, i] * get k [0, j] *
                 padded3 img (int h + int i - int (n div 2)) (int w + int j - int (n div 2)) c)"
    by (simp only: padded3_first_pass[OF img k w c] sum_distrib_left mult.assoc)
  also have "\<dots> = correlation3 img (outer_product k) h w c"
    using k by (simp add: correlation3_def outer_product_def[THEN arg_cong, of shape] get_outer_product[OF k])
  finally show ?thesis .
qed

lemma shape_outer_product: "shape k = [1, n] \<Longrightarrow> shape (outer_product k) = [n, n]"
  and dtype_outer_product [simp]: "dtype (outer_product k) = dtype k"
  by (simp_all add: outer_product_def)

lemma list_len2: "length xs = 2 \<Longrightarrow> \<exists>a b. xs = [a, b]"
  by (cases xs; cases "tl xs"; auto)

lemma list_len3: "length xs = 3 \<Longrightarrow> \<exists>a b c. xs = [a, b, c]"
  by (cases xs; cases "tl xs"; cases "tl (tl xs)"; auto)

section \<open>Properties of \<open>cross_correlation_2d\<close>\<close>

text \<open>
  C10. An array whose rank is neither 2 nor 3 takes neither branch of
  \<open>cross_correlation_2d\<close>: no exception is raised, the kernel is not looked at, and the
  result is the untouched \<open>np.zeros_like(img, dtype='float64')\<close>: a float64 array of the
  shape of the input, all zero.
\<close>

theorem cross_correlation_2d_other_rank:
  assumes "length (shape img) \<noteq> 2" and "length (shape img) \<noteq> 3"
  shows "cross_correlation_2d img kern =
           Inr \<lparr>dtype = Float64, shape = shape img, buf = replicate (prod_list (shape img)) 0\<rparr>"
  using assms by (simp add: cross_correlation_2d_def zeros_like_def zeros_def)

theorem cross_correlation_2d_other_rank_witness:
  "length (shape \<lparr>dtype = UInt8, shape = [3], buf = [7, 8, 9]\<rparr>) \<noteq> 2
   \<and> length (shape \<lparr>dtype = UInt8, shape = [3], buf = [7, 8, 9]\<rparr>) \<noteq> 3
   \<and> cross_correlation_2d \<lparr>dtype = UInt8, shape = [3], buf = [7, 8, 9]\<rparr>
        \<lparr>dtype = Float64, shape = [1, 1], buf = [1]\<rparr>
      = Inr \<lparr>dtype = Float64, shape = [3], buf = [0, 0, 0]\<rparr>"
  using cross_correlation_2d_other_rank
          [of "\<lparr>dtype = UInt8, shape = [3], buf = [7, 8, 9]\<rparr>"
              "\<lparr>dtype = Float64, shape = [1, 1], buf = [1]\<rparr>"]
  by (simp add: numeral_eq_Suc)





section \<open>Properties of \<open>separable_filter\<close>\<close>

text \<open>
  C3. For every array \<open>img\<close> and every single-row kernel of shape \<open>[1, n]\<close> (in
  particular with \<open>n\<close> odd) that are not both 8-bit, \<open>separable_filter img kernel1d\<close>,
  that is \<open>cross_correlation_2d (cross_correlation_2d img kernel1d) kernel1d.T\<close>, is the
  cross-correlation of \<open>img\<close> with the outer product of the kernel with itself: the
  same buffer, or the same exception. The equality is the algebraic one: the sums and
  products are those of real arithmetic, and the rounding of the floating-point
  operations, which differs between the two sides, is not modelled.
\<close>

theorem separable_filter_outer_product:
  assumes k: "shape kernel1d = [1, n]"
    and f: "dtype kernel1d \<noteq> UInt8 \<or> dtype img \<noteq> UInt8"
  shows "separable_filter img kernel1d = cross_correlation_2d img (outer_product kernel1d)"
proof -
  have kT: "shape (transpose_nd kernel1d) = [n, 1]"
    using k by simp
  have kO: "shape (outer_product kernel1d) = [n, n]"
    using k by (simp add: shape_outer_product)
  have fO: "dtype (outer_product kernel1d) \<noteq> UInt8 \<or> dtype img \<noteq> UInt8"
    using f by simp
  have fT: "dtype (transpose_nd kernel1d) \<noteq> UInt8 \<or> dtype (mk Float64 s g) \<noteq> UInt8" for s g
    by simp
  consider (two) "length (shape img) = 2" | (three) "length (shape img) = 3"
    | (other) "length (shape img) \<noteq> 2" "length (shape img) \<noteq> 3" by blast
  then show ?thesis
  proof cases
    case two
    then obtain H W where img: "shape img = [H, W]" using list_len2 by blast
    let ?T = "mk Float64 [H, W] (\<lambda>idx. correlation2 img kernel1d (idx ! 0) (idx ! 1))"
    have "separable_filter img kernel1d
        = Inr (mk Float64 [H, W] (\<lambda>idx. correlation2 ?T (transpose_nd kernel1d) (idx ! 0) (idx ! 1)))"
      unfolding separable_filter_def cc2_any[OF img k f]
      using cc2_any[of ?T H W, OF _ kT fT] by simp
    also have "\<dots> = Inr (mk Float64 [H, W]
                   (\<lambda>idx. correlation2 img (outer_product kernel1d) (idx ! 0) (idx ! 1)))"
      using second_pass2[OF img k] by (auto simp: in_indices2 intro!: mk_cong)
    also have "\<dots> = cross_correlation_2d img (outer_product kernel1d)"
      using cc2_any[OF img kO fO] by simp
    finally show ?thesis .
  next
    case three
    then obtain H W C where img: "shape img = [H, W, C]" using list_len3 by blast
    consider (empty) "H = 0 \<or> W = 0" | (few) "0 < H" "0 < W" "C < 3" | (rgb) "3 \<le> C"
      by linarith
    then show ?thesis
    proof cases
      case empty
      have "separable_filter img kernel1d = Inr (mk Float64 [H, W, C] (\<lambda>idx. 0))"
        unfolding separable_filter_def cc3_empty[OF img empty k]
        using cc3_empty[of "mk Float64 [H, W, C] (\<lambda>idx. 0)" H W C, OF _ empty kT] by simp
      then show ?thesis using cc3_empty[OF img empty kO] by simp
    next
      case few
      have "separable_filter img kernel1d = Inl IndexError"
        unfolding separable_filter_def cc3_few_channels_any[OF img few(3,1,2) k] by simp
      then show ?thesis using cc3_few_channels_any[OF img few(3,1,2) kO] by simp
    next
      case rgb
      let ?T = "mk Float64 [H, W, C]
             (\<lambda>idx. if idx ! 2 < 3 then correlation3 img kernel1d (idx ! 0) (idx ! 1) (idx ! 2) else 0)"
      have "separable_filter img kernel1d
          = Inr (mk Float64 [H, W, C]
                   (\<lambda>idx. if idx ! 2 < 3
                          then correlation3 ?T (transpose_nd kernel1d) (idx ! 0) (idx ! 1) (idx ! 2)
                          else 0))"
        unfolding separable_filter_def cc3_any[OF img rgb k f]
        using cc3_any[of ?T H W C, OF _ rgb kT fT] by simp
      also have "\<dots> = Inr (mk Float64 [H, W, C]
                   (\<lambda>idx. if idx ! 2 < 3
                          then correlation3 img (outer_product kernel1d) (idx ! 0) (idx ! 1) (idx ! 2)
                          else 0))"
        using second_pass3[OF img k] by (auto simp: in_indices3 intro!: mk_cong)
      also have "\<dots> = cross_correlation_2d img (outer_product kernel1d)"
        using cc3_any[OF img rgb kO fO] by simp
      finally show ?thesis .
    qed
  next
    case other
    then show ?thesis
      by (simp add: separable_filter_def cross_correlation_2d_def zeros_like_def zeros_def)
  qed
qed

theorem separable_filter_outer_product_witness:
  "shape \<lparr>dtype = UInt8, shape = [1, 3], buf = [1, 2, 1]\<rparr> = [1, 3]
   \<and> dtype \<lparr>dtype = Float32, shape = [2, 2], buf = [1, 2, 3, 4]\<rparr> \<noteq> UInt8
   \<and> cross_correlation_2d \<lparr>dtype = Float32, shape = [2, 2], buf = [1, 2, 3, 4]\<rparr>
        (outer_product \<lparr>dtype = UInt8, shape = [1, 3], buf = [1, 2, 1]\<rparr>)
      = Inr \<lparr>dtype = Float64, shape = [2, 2], buf = [18, 21, 24, 27]\<rparr>"
proof -
  let ?img = "\<lparr>dtype = Float32, shape = [2, 2], buf = [1, 2, 3, 4]\<rparr>"
  let ?k = "\<lparr>dtype = UInt8, shape = [1, 3], buf = [1, 2, 1]\<rparr>"
  have "separable_filter ?img ?k
          = Inr \<lparr>dtype = Float64, shape = [2, 2], buf = [18, 21, 24, 27]\<rparr>"
    by code_simp
  then show ?thesis
    using separable_filter_outer_product[of ?k 3 ?img] by simp
qed

text \<open>
  The claim as the specification words it (every image and every 1-by-n kernel) fails
  when both are 8-bit: the first pass multiplies in 8-bit arithmetic and wraps, the
  second pass works on its float64 result. On the 8-bit 1-by-1 image 200 with the 8-bit
  kernel \<open>[1, 2, 1]\<close> the two passes give 288 (\<open>2 * ((2 * 200) mod 256)\<close>), the
  cross-correlation with the outer product gives 32 (\<open>(4 * 200) mod 256\<close>), and the sum
  of the products is 800.
\<close>

theorem separable_filter_8bit_counterexample:
  "separable_filter \<lparr>dtype = UInt8, shape = [1, 1], buf = [200]\<rparr>
       \<lparr>dtype = UInt8, shape = [1, 3], buf = [1, 2, 1]\<rparr>
     = Inr \<lparr>dtype = Float64, shape = [1, 1], buf = [288]\<rparr>
   \<and> cross_correlation_2d \<lparr>dtype = UInt8, shape = [1, 1], buf = [200]\<rparr>
       (outer_product \<lparr>dtype = UInt8, shape = [1, 3], buf = [1, 2, 1]\<rparr>)
     = Inr \<lparr>dtype = Float64, shape = [1, 1], buf = [32]\<rparr>
   \<and> correlation2 \<lparr>dtype = UInt8, shape = [1, 1], buf = [200]\<rparr>
       (outer_product \<lparr>dtype = UInt8, shape = [1, 3], buf = [1, 2, 1]\<rparr>) 0 0 = 800"
  by code_simp

section \<open>Properties of \<open>gaussian_blur_kernel_2d\<close>\<close>

lemma rounds_to_zero_0: "float_rounds_to_zero (0\<^sup>2)"
  by (simp add: float_rounds_to_zero_def)

lemma gauss_entry_eq:
  assumes "\<not> float_overflows (sigma\<^sup>2)" "\<not> float_rounds_to_zero (sigma\<^sup>2)"
  shows "gauss_entry sigma (height div 2) (width div 2) y x
           = Inr (gaussian_value sigma height width y x)"
proof -
  have "sigma \<noteq> 0" using assms(2) rounds_to_zero_0 by auto
  then show ?thesis using assms by (simp add: gauss_entry_def gaussian_value_def powr_def)
qed

lemma gauss_entry_overflow:
  "float_overflows (sigma\<^sup>2) \<Longrightarrow> gauss_entry sigma hh hw y x = Inl OverflowError"
  by (auto simp: gauss_entry_def float_overflows_def)

lemma gauss_entry_zero:
  "float_rounds_to_zero (sigma\<^sup>2) \<Longrightarrow> gauss_entry sigma hh hw y x = Inl ZeroDivisionError"
  by (auto simp: gauss_entry_def float_overflows_def float_rounds_to_zero_def)

lemma gaussian_value_pos: "0 < sigma \<Longrightarrow> 0 < gaussian_value sigma height width y x"
  by (simp add: gaussian_value_def)

lemma div_scalar_mk: "div_scalar (mk d s f) t = mk d s (\<lambda>idx. f idx / t)"
  by (simp add: div_scalar_def mk_def)

lemma sum_list_divide: "sum_list (map (\<lambda>v. v / t) xs) = sum_list xs / (t :: real)"
  by (induction xs) (auto simp: add_divide_distrib)

lemma sum_list_pos: "xs \<noteq> [] \<Longrightarrow> (\<And>x. x \<in> set xs \<Longrightarrow> 0 < x) \<Longrightarrow> 0 < sum_list (xs :: real list)"
proof (induction xs)
  case Nil
  then show ?case by simp
next
  case (Cons a xs)
  show ?case
  proof (cases "xs = []")
    case True
    then show ?thesis using Cons.prems by simp
  next
    case False
    then have "0 < sum_list xs" using Cons by simp
    then show ?thesis using Cons.prems(2)[of a] by simp
  qed
qed

lemma np_sum_mk2: "np_sum (mk d [m, n] f) = (\<Sum>i<m. \<Sum>j<n. f [i, j])"
  by (simp add: np_sum_def buf_mk sum_list_indices2)

lemma gaussian_kernel_form:
  assumes "0 \<le> height" "0 \<le> width"
    and "(\<not> float_overflows (sigma\<^sup>2) \<and> \<not> float_rounds_to_zero (sigma\<^sup>2))
         \<or> height = 0 \<or> width = 0"
    and "\<not> zeros_too_big height width"
  shows "gaussian_blur_kernel_2d sigma height width =
           Inr (mk Float64 [nat height, nat width]
                  (\<lambda>idx. gaussian_value sigma height width (int (idx ! 0)) (int (idx ! 1)) /
                         (\<Sum>y<nat height. \<Sum>x<nat width.
                             gaussian_value sigma height width (int y) (int x))))"
proof -
  let ?g = "\<lambda>idx. gaussian_value sigma height width (int (idx ! 0)) (int (idx ! 1))"
  have "collect (map (\<lambda>idx. gauss_entry sigma (height div 2) (width div 2)
                              (int (idx ! 0)) (int (idx ! 1)))
                  (indices [nat height, nat width]))
          = Inr (map ?g (indices [nat height, nat width]))"
  proof (cases "height = 0 \<or> width = 0")
    case True
    then have "indices [nat height, nat width] = []" by (auto simp: indices_eq_Nil)
    then show ?thesis by simp
  next
    case False
    then show ?thesis using assms(3) by (intro collect_map_Inr) (simp add: gauss_entry_eq)
  qed
  moreover have "\<lparr>dtype = Float64, shape = [nat height, nat width],
                  buf = map ?g (indices [nat height, nat width])\<rparr>
               = mk Float64 [nat height, nat width] ?g"
    by (simp add: mk_def)
  ultimately show ?thesis
    using assms(1,2,4)
    by (simp add: gaussian_blur_kernel_2d_def Let_def div_scalar_mk np_sum_mk2)
qed

lemma gaussian_kernel_overflow:
  assumes "0 < height" "0 < width" "float_overflows (sigma\<^sup>2)"
    and "\<not> zeros_too_big height width"
  shows "gaussian_blur_kernel_2d sigma height width = Inl OverflowError"
proof -
  have "indices [nat height, nat width] \<noteq> []" using assms by (simp add: indices_eq_Nil)
  then have "collect (map (\<lambda>idx. gauss_entry sigma (height div 2) (width div 2)
                              (int (idx ! 0)) (int (idx ! 1)))
                  (indices [nat height, nat width])) = Inl OverflowError"
    by (rule collect_map_Inl) (simp add: gauss_entry_overflow assms(3))
  then show ?thesis using assms by (simp add: gaussian_blur_kernel_2d_def Let_def)
qed

lemma gaussian_kernel_zero:
  assumes "0 < height" "0 < width" "float_rounds_to_zero (sigma\<^sup>2)"
    and "\<not> zeros_too_big height width"
  shows "gaussian_blur_kernel_2d sigma height width = Inl ZeroDivisionError"
proof -
  have "indices [nat height, nat width] \<noteq> []" using assms by (simp add: indices_eq_Nil)
  then have "collect (map (\<lambda>idx. gauss_entry sigma (height div 2) (width div 2)
                              (int (idx ! 0)) (int (idx ! 1)))
                  (indices [nat height, nat width])) = Inl ZeroDivisionError"
    by (rule collect_map_Inl) (simp add: gauss_entry_zero assms(3))
  then show ?thesis using assms by (simp add: gaussian_blur_kernel_2d_def Let_def)
qed


lemma unit_sigma_in_range: "\<not> float_overflows (1\<^sup>2)" "\<not> float_rounds_to_zero (1\<^sup>2)"
  by (simp_all add: float_overflows_def float_rounds_to_zero_def)

text \<open>
  C5. For every \<open>sigma > 0\<close> whose square lies in the float range (it neither overflows
  nor rounds to zero) and all positive \<open>height\<close> and \<open>width\<close> (in particular odd ones)
  of an array below \<open>2^63\<close> bytes,
  \<open>gaussian_blur_kernel_2d\<close> returns a float64 kernel of that shape whose entries sum
  to 1, the entry \<open>(y, x)\<close> being the value
  \<open>(1/(2*pi*sigma))*exp(-((x-width//2)^2+(y-height//2)^2)/(2*sigma^2))\<close> divided by the
  sum of these values over the kernel. The values are those of real arithmetic: the sum
  is 1 up to the rounding of the floating-point operations, which is not modelled.
\<close>

theorem gaussian_blur_kernel_2d_normalized:
  assumes "0 < sigma"
    and "\<not> float_overflows (sigma\<^sup>2)" and "\<not> float_rounds_to_zero (sigma\<^sup>2)"
    and "0 < height" and "0 < width" and "8 * height * width < 2 ^ 63"
  shows "\<exists>k. gaussian_blur_kernel_2d sigma height width = Inr k
           \<and> dtype k = Float64 \<and> shape k = [nat height, nat width]
           \<and> np_sum k = 1
           \<and> (\<forall>y<nat height. \<forall>x<nat width.
                 get k [y, x] =
                   gaussian_value sigma height width (int y) (int x) /
                   (\<Sum>y'<nat height. \<Sum>x'<nat width.
                       gaussian_value sigma height width (int y') (int x')))"
proof -
  let ?g = "\<lambda>idx. gaussian_value sigma height width (int (idx ! 0)) (int (idx ! 1))"
  let ?t = "\<Sum>y<nat height. \<Sum>x<nat width. gaussian_value sigma height width (int y) (int x)"
  let ?k = "mk Float64 [nat height, nat width] (\<lambda>idx. ?g idx / ?t)"
  have "max 1 height = height" "max 1 width = width" using assms(4,5) by simp_all
  then have "\<not> zeros_too_big height width"
    using assms(6) by (simp add: zeros_too_big_def)
  then have k: "gaussian_blur_kernel_2d sigma height width = Inr ?k"
    using assms by (intro gaussian_kernel_form) auto
  have t: "?t = sum_list (map ?g (indices [nat height, nat width]))"
    by (simp add: sum_list_indices2)
  have "indices [nat height, nat width] \<noteq> []"
    using assms by (simp add: indices_eq_Nil)
  then have "0 < sum_list (map ?g (indices [nat height, nat width]))"
    by (intro sum_list_pos) (auto simp: gaussian_value_pos[OF assms(1)])
  then have pos: "0 < ?t" using t by simp
  have "np_sum ?k = sum_list (map ?g (indices [nat height, nat width])) / ?t"
    by (simp add: np_sum_def buf_mk sum_list_divide[symmetric] comp_def)
  then have "np_sum ?k = 1" using pos t by simp
  moreover have "\<forall>y<nat height. \<forall>x<nat width. get ?k [y, x] =
        gaussian_value sigma height width (int y) (int x) / ?t"
    by (simp add: get_mk in_indices2)
  ultimately show ?thesis using k by simp
qed

theorem gaussian_blur_kernel_2d_normalized_witness:
  "(0::real) < 2 \<and> \<not> float_overflows (2\<^sup>2) \<and> \<not> float_rounds_to_zero (2\<^sup>2)
   \<and> (0::int) < 3 \<and> (0::int) < 5 \<and> (8::int) * 3 * 5 < 2 ^ 63
   \<and> (case gaussian_blur_kernel_2d 2 3 5 of
        Inl e \<Rightarrow> False
      | Inr k \<Rightarrow> dtype k = Float64 \<and> shape k = [3, 5] \<and> np_sum k = 1)"
proof -
  have r: "\<not> float_overflows (2\<^sup>2)" "\<not> float_rounds_to_zero (2\<^sup>2)"
    by (simp_all add: float_overflows_def float_rounds_to_zero_def)
  then show ?thesis
    using gaussian_blur_kernel_2d_normalized[of 2 3 5] by auto
qed

text \<open>
  The claim as the specification words it (every \<open>sigma > 0\<close> and all odd positive
  dimensions) fails at both ends of the float range and for an array that cannot be
  addressed: for \<open>sigma = 2^700\<close> the square overflows and \<open>sigma**2\<close> raises
  \<open>OverflowError\<close>; for \<open>sigma = 2^-700\<close> the square is \<open>0.0\<close> and the division by
  \<open>2*sigma**2\<close> raises \<open>ZeroDivisionError\<close>; for the height \<open>2^62 + 1\<close> \<open>np.zeros\<close>
  raises \<open>ValueError\<close>. No kernel is returned.
\<close>

theorem gaussian_blur_kernel_2d_float_range_counterexample:
  "gaussian_blur_kernel_2d (2 ^ 700) 3 3 = Inl OverflowError
   \<and> gaussian_blur_kernel_2d (1 / 2 ^ 700) 3 3 = Inl ZeroDivisionError
   \<and> gaussian_blur_kernel_2d 1 (2 ^ 62 + 1) 1 = Inl ValueError"
proof -
  have "float_overflows ((2 ^ 700)\<^sup>2)"
    by (simp add: float_overflows_def)
  moreover have "float_rounds_to_zero ((1 / 2 ^ 700)\<^sup>2)"
    by (simp add: float_rounds_to_zero_def power_divide)
  moreover have "\<not> zeros_too_big 3 3"
    by (simp add: zeros_too_big_def)
  moreover have "gaussian_blur_kernel_2d 1 (2 ^ 62 + 1) 1 = Inl ValueError"
    by (simp add: gaussian_blur_kernel_2d_def zeros_too_big_def)
  ultimately show ?thesis
    by (simp add: gaussian_kernel_overflow gaussian_kernel_zero)
qed

section \<open>Properties of \<open>low_pass\<close> and \<open>high_pass\<close>\<close>

lemma prod_list_zero3: "H = 0 \<or> W = 0 \<Longrightarrow> prod_list [H, W, C] = (0::nat)"
  by auto

lemma cc_float_result:
  assumes k: "shape kern = [m, n]" "dtype kern \<noteq> UInt8"
    and r: "cross_correlation_2d img kern = Inr out"
  shows "dtype out = Float64 \<and> shape out = shape img \<and> length (buf out) = prod_list (shape img)"
proof -
  consider (two) "length (shape img) = 2" | (three) "length (shape img) = 3"
    | (other) "length (shape img) \<noteq> 2" "length (shape img) \<noteq> 3" by blast
  then show ?thesis
  proof cases
    case two
    then obtain H W where img: "shape img = [H, W]" using list_len2 by blast
    show ?thesis using r img unfolding cc2[OF img k] by auto
  next
    case three
    then obtain H W C where img: "shape img = [H, W, C]" using list_len3 by blast
    consider (empty) "H = 0 \<or> W = 0" | (few) "0 < H" "0 < W" "C < 3" | (rgb) "3 \<le> C"
      by linarith
    then show ?thesis
    proof cases
      case empty
      show ?thesis using r img unfolding cc3_empty[OF img empty k(1)] by auto
    next
      case few
      show ?thesis using r unfolding cc3_few_channels[OF img few(3,1,2) k] by simp
    next
      case rgb
      show ?thesis using r img unfolding cc3[OF img rgb k] by auto
    qed
  next
    case other
    then show ?thesis
      using r by (auto simp: cross_correlation_2d_def zeros_like_def zeros_def)
  qed
qed

lemma flip2_kernel:
  assumes "shape k = [m, n]"
  shows "\<exists>k'. flip2 k = Inr k' \<and> shape k' = [m, n] \<and> dtype k' = dtype k"
  using assms by (simp add: flip2_def)

lemma gaussian_kernel_cases:
  "gaussian_blur_kernel_2d sigma height width = Inr k
     \<Longrightarrow> shape k = [nat height, nat width] \<and> dtype k = Float64"
  by (auto simp: gaussian_blur_kernel_2d_def Let_def div_scalar_def split: if_splits sum.splits)

lemma low_pass_result:
  assumes "low_pass img sigma ksize = Inr low"
  shows "dtype low = Float64 \<and> shape low = shape img \<and> length (buf low) = prod_list (shape img)"
proof -
  from assms obtain k where k: "gaussian_blur_kernel_2d sigma ksize ksize = Inr k"
      and c: "convolve_2d img k = Inr low"
    by (auto simp: low_pass_def split: sum.splits)
  from gaussian_kernel_cases[OF k] have sk: "shape k = [nat ksize, nat ksize]" "dtype k = Float64"
    by simp_all
  from flip2_kernel[OF sk(1)] obtain k' where k': "flip2 k = Inr k'"
      "shape k' = [nat ksize, nat ksize]" "dtype k' = dtype k" by blast
  then have "cross_correlation_2d img k' = Inr low" using c by (simp add: convolve_2d_def)
  then show ?thesis using cc_float_result[of k' "nat ksize" "nat ksize" img low] k' sk by simp
qed

lemma promote_Float64 [simp]: "promote d Float64 = Float64" "promote Float64 d = Float64"
  by (simp_all add: promote_def)

lemma sub_add_cancel:
  assumes len: "length (buf a) = prod_list (shape a)"
    and b: "shape b = shape a" "dtype b = Float64"
  shows "\<exists>h. binop (-) a b = Inr h \<and> binop (+) h b = Inr (a\<lparr>dtype := Float64\<rparr>)"
proof -
  let ?h = "mk Float64 (shape a) (\<lambda>idx. get a idx - get b idx)"
  have h: "binop (-) a b = Inr ?h"
    using b by (simp add: binop_same[of a b])
  have "binop (+) ?h b = Inr (mk Float64 (shape a) (\<lambda>idx. get ?h idx + get b idx))"
    using b by (simp add: binop_same[of ?h b])
  also have "mk Float64 (shape a) (\<lambda>idx. get ?h idx + get b idx) = mk Float64 (shape a) (get a)"
    by (rule mk_cong) (simp add: get_mk)
  also have "\<dots> = a\<lparr>dtype := Float64\<rparr>"
    using len unfolding mk_def get_def by (simp add: map_nth_offset)
  finally show ?thesis using h by simp
qed

lemma low_pass_returns:
  assumes "\<not> float_overflows (sigma\<^sup>2)" "\<not> float_rounds_to_zero (sigma\<^sup>2)" "0 \<le> ksize"
    and "shape img = [H, W] \<or> (shape img = [H, W, C] \<and> 3 \<le> C)"
    and "\<not> zeros_too_big ksize ksize"
  shows "\<exists>low. low_pass img sigma ksize = Inr low"
proof -
  obtain k where k: "gaussian_blur_kernel_2d sigma ksize ksize = Inr k"
    using gaussian_kernel_form[of ksize ksize sigma] assms by auto
  from gaussian_kernel_cases[OF k] have sk: "shape k = [nat ksize, nat ksize]" "dtype k = Float64"
    by simp_all
  from flip2_kernel[OF sk(1)] obtain k' where k': "flip2 k = Inr k'"
      "shape k' = [nat ksize, nat ksize]" "dtype k' \<noteq> UInt8" using sk(2) by auto
  have "\<exists>low. cross_correlation_2d img k' = Inr low"
    using assms(4) cc2[OF _ k'(2,3)] cc3[OF _ _ k'(2,3)] by auto
  then show ?thesis using k k' by (simp add: low_pass_def convolve_2d_def)
qed


text \<open>
  In real arithmetic the sum of the two filter results is the image. When \<open>low_pass\<close>
  raises, \<open>high_pass\<close> raises the same exception; when \<open>low_pass\<close> returns,
  \<open>high_pass\<close> returns too and the sum of the two results has the shape and the samples
  of the image (as float64, the type of every filter result). The last section of this
  theory looks at the same sum in the arithmetic of the machine.
\<close>

lemma high_pass_plus_low_pass_reals:
  assumes "length (buf img) = prod_list (shape img)"
  shows "case low_pass img sigma ksize of
           Inl e \<Rightarrow> high_pass img sigma ksize = Inl e
         | Inr low \<Rightarrow>
             \<exists>high. high_pass img sigma ksize = Inr high
                  \<and> binop (+) high low = Inr (img\<lparr>dtype := Float64\<rparr>)"
proof (cases "low_pass img sigma ksize")
  case (Inl e)
  then show ?thesis
    by (auto simp: low_pass_def high_pass_def split: sum.splits)
next
  case (Inr low)
  from low_pass_result[OF Inr] sub_add_cancel[OF assms, of low]
  obtain h where h: "binop (-) img low = Inr h" "binop (+) h low = Inr (img\<lparr>dtype := Float64\<rparr>)"
    by auto
  have "high_pass img sigma ksize = binop (-) img low"
    using Inr by (auto simp: low_pass_def high_pass_def split: sum.splits)
  then show ?thesis using Inr h by simp
qed

section \<open>Properties of \<open>construct_laplacian\<close>: the precondition\<close>

text \<open>No exception other than IndexError and ValueError leaves the numerical helpers.\<close>

lemma binop_err: "binop f a b = Inl e \<Longrightarrow> e = ValueError"
  by (auto simp: binop_def Let_def split: option.splits)

lemma kernel_dot_err: "kernel_dot k w = Inl e \<Longrightarrow> e = ValueError"
  by (auto simp: kernel_dot_def dest: binop_err split: sum.splits)

lemma kernel_dot_err': "Inl e = kernel_dot k w \<Longrightarrow> e = ValueError"
  using kernel_dot_err[of k w e] by simp

lemma window3_err_kind: "window3 p h m w n c = Inl e \<Longrightarrow> e = IndexError"
  by (auto simp: window3_def split: if_splits)

lemma pixel3_err: "pixel3 k p h m w n = Inl e \<Longrightarrow> e = IndexError \<or> e = ValueError"
  by (auto simp: pixel3_def dest!: collect_Inl kernel_dot_err' window3_err_kind split: sum.splits)

lemma pixel3_err': "Inl e = pixel3 k p h m w n \<Longrightarrow> e = IndexError \<or> e = ValueError"
  using pixel3_err[of k p h m w n e] by simp

lemma cross_correlation_2d_err:
  "cross_correlation_2d img k = Inl e \<Longrightarrow> e = IndexError \<or> e = ValueError"
  by (auto simp: cross_correlation_2d_def Let_def
           dest!: collect_Inl kernel_dot_err' pixel3_err'
           split: if_splits list.splits sum.splits)

lemma separable_filter_err:
  "separable_filter img k = Inl e \<Longrightarrow> e = IndexError \<or> e = ValueError"
  by (auto simp: separable_filter_def dest: cross_correlation_2d_err split: sum.splits)

lemma decimate_err: "decimate a = Inl e \<Longrightarrow> e = IndexError"
  by (auto simp: decimate_def split: list.splits)

lemma assign_all_err: "assign_all up ps src = Inl e \<Longrightarrow> e = ValueError"
  by (induction up ps src rule: assign_all.induct)
     (auto simp: assign_strided_def Let_def split: sum.splits if_splits)

lemma upsample_err: "upsample d a = Inl e \<Longrightarrow> e = ValueError"
  by (auto simp: upsample_def simp del: assign_all.simps dest: assign_all_err split: list.splits)

lemma gau_steps_err: "gau_steps xs gau = Inl e \<Longrightarrow> e = IndexError \<or> e = ValueError"
  by (induction xs gau rule: gau_steps.induct)
     (auto dest: separable_filter_err decimate_err split: sum.splits)

lemma lap_steps_err: "lap_steps d gau xs lap = Inl e \<Longrightarrow> e = ValueError"
  by (induction d gau xs lap rule: lap_steps.induct)
     (auto dest: upsample_err binop_err split: sum.splits)


text \<open>
  C6. For every image (an array of rank at least 2, of height \<open>h\<close> and width \<open>w\<close>) and
  every positive number of levels, \<open>construct_laplacian\<close> raises \<open>AssertionError\<close> if and
  only if \<open>h\<close> or \<open>w\<close> is not divisible by \<open>2^(levels-1)\<close>. The assertion is the first
  thing evaluated after the shape is read: when it fails nothing else is computed and no
  other exception can take its place, and when it passes no later step raises
  \<open>AssertionError\<close>.
\<close>

theorem construct_laplacian_assertion:
  assumes "1 \<le> levels" and "shape img = h # w # rest"
  shows "construct_laplacian img levels = Inl AssertionError
           \<longleftrightarrow> \<not> (2 ^ (levels - 1) dvd h \<and> 2 ^ (levels - 1) dvd w)"
  using assms
  by (auto simp: construct_laplacian_def mod_eq_0_iff_dvd
           dest: gau_steps_err lap_steps_err split: sum.splits)

theorem construct_laplacian_assertion_witness:
  "(1::nat) \<le> 2
   \<and> shape \<lparr>dtype = Float64, shape = [3, 2], buf = [1, 2, 3, 4, 5, 6]\<rparr> = 3 # 2 # []
   \<and> construct_laplacian \<lparr>dtype = Float64, shape = [3, 2], buf = [1, 2, 3, 4, 5, 6]\<rparr> 2
        = Inl AssertionError
   \<and> shape \<lparr>dtype = Float64, shape = [2, 2], buf = [1, 2, 3, 4]\<rparr> = 2 # 2 # []
   \<and> construct_laplacian \<lparr>dtype = Float64, shape = [2, 2], buf = [1, 2, 3, 4]\<rparr> 2
        \<noteq> Inl AssertionError"
  using construct_laplacian_assertion
          [of 2 "\<lparr>dtype = Float64, shape = [3, 2], buf = [1, 2, 3, 4, 5, 6]\<rparr>" 3 2 "[]"]
        construct_laplacian_assertion
          [of 2 "\<lparr>dtype = Float64, shape = [2, 2], buf = [1, 2, 3, 4]\<rparr>" 2 2 "[]"]
  by simp

section \<open>Properties of \<open>create_hybrid_image\<close>\<close>

lemma gaussian_value_nonzero: "sigma \<noteq> 0 \<Longrightarrow> gaussian_value sigma height width y x \<noteq> 0"
  by (simp add: gaussian_value_def)

lemma gaussian_1x1:
  assumes "\<not> float_overflows (sigma\<^sup>2)" "\<not> float_rounds_to_zero (sigma\<^sup>2)"
  shows "gaussian_blur_kernel_2d sigma 1 1 = Inr \<lparr>dtype = Float64, shape = [1, 1], buf = [1]\<rparr>"
proof -
  have "sigma \<noteq> 0" using assms(2) rounds_to_zero_0 by auto
  moreover have "indices [1, 1] = [[0, 0]]" by (simp add: indices.simps)
  moreover have "\<not> zeros_too_big 1 1" by (simp add: zeros_too_big_def)
  ultimately show ?thesis
    using assms gaussian_kernel_form[of 1 1 sigma]
    by (simp add: mk_def lessThan_Suc gaussian_value_nonzero)
qed

lemma low_pass_1x1:
  "low_pass img 1 1 = convolve_2d img \<lparr>dtype = Float64, shape = [1, 1], buf = [1]\<rparr>"
  using gaussian_1x1[OF unit_sigma_in_range] by (simp add: low_pass_def)

lemma is_u8_unit:
  assumes "is_u8 v" shows "0 \<le> v / 255 \<and> v / 255 \<le> 1"
proof -
  from assms have v: "v = of_int \<lfloor>v\<rfloor>" "0 \<le> v" "v < 256" by (simp_all add: is_u8_def)
  then have "\<lfloor>v\<rfloor> < 256" by linarith
  then have "\<lfloor>v\<rfloor> \<le> 255" by simp
  then have "v \<le> 255" using v(1) by linarith
  then show ?thesis using v(2) by simp
qed

lemma to_unit_float32_props:
  "dtype (to_unit_float32 a) = Float32"
  "shape (to_unit_float32 a) = shape a"
  "buf (to_unit_float32 a) = map (\<lambda>v. v / 255) (buf a)"
  by (simp_all add: to_unit_float32_def div_scalar_def)

lemma hybrid_normalize_float32:
  "hybrid_normalize (to_unit_float32 a) (to_unit_float32 b) = (to_unit_float32 a, to_unit_float32 b)"
  by (simp add: hybrid_normalize_def to_unit_float32_props)

lemma lower_low: "lower ''low'' = ''low''"
  by code_simp

lemma hybrid_tail:
  "(case imul_scalar a (PyFloat (2 * (1 - mixin_ratio))) of
      Inl e \<Rightarrow> Inl e
    | Inr img1 \<Rightarrow>
   (case imul_scalar b (PyFloat (2 * mixin_ratio)) of
      Inl e \<Rightarrow> Inl e
    | Inr img2 \<Rightarrow>
   (case binop (+) img1 img2 of
      Inl e \<Rightarrow> Inl e
    | Inr hybrid_img \<Rightarrow> Inr (to_uint8_image hybrid_img)))) = r
   \<Longrightarrow> hybrid_filter (lower high_low1) (fst (hybrid_normalize img1 img2)) sigma1 size1 = Inr a
   \<Longrightarrow> hybrid_filter (lower high_low2) (snd (hybrid_normalize img1 img2)) sigma2 size2 = Inr b
   \<Longrightarrow> create_hybrid_image img1 img2 sigma1 size1 high_low1 sigma2 size2 high_low2 mixin_ratio = r"
  by (cases "hybrid_normalize img1 img2") (simp add: create_hybrid_image_def Let_def)


text \<open>
  C8. The conversion of lines 136 to 138 is gated on the sample type of \<open>img1\<close> alone.
  When \<open>img1\<close> is 8-bit, both images are converted to float32 and divided by 255 before
  the filters are applied: the call is the same as the call on the two converted images,
  and the conversion takes an 8-bit image into \<open>[0, 1]\<close>. When \<open>img1\<close> is not 8-bit,
  neither image is converted, whatever the sample type of \<open>img2\<close>.
\<close>

theorem create_hybrid_image_normalization:
  "(dtype img1 = UInt8 \<longrightarrow>
      hybrid_normalize img1 img2 = (to_unit_float32 img1, to_unit_float32 img2)
      \<and> create_hybrid_image img1 img2 sigma1 size1 high_low1 sigma2 size2 high_low2 mixin_ratio
          = create_hybrid_image (to_unit_float32 img1) (to_unit_float32 img2)
              sigma1 size1 high_low1 sigma2 size2 high_low2 mixin_ratio)
   \<and> (dtype img1 \<noteq> UInt8 \<longrightarrow> hybrid_normalize img1 img2 = (img1, img2))
   \<and> dtype (to_unit_float32 img) = Float32
   \<and> shape (to_unit_float32 img) = shape img
   \<and> buf (to_unit_float32 img) = map (\<lambda>v. v / 255) (buf img)
   \<and> (dtype img = UInt8 \<and> u8_ok img \<longrightarrow>
        list_all (\<lambda>v. 0 \<le> v \<and> v \<le> 1) (buf (to_unit_float32 img)))"
proof -
  have "create_hybrid_image img1 img2 sigma1 size1 high_low1 sigma2 size2 high_low2 mixin_ratio
          = create_hybrid_image (to_unit_float32 img1) (to_unit_float32 img2)
              sigma1 size1 high_low1 sigma2 size2 high_low2 mixin_ratio"
    if "dtype img1 = UInt8"
    unfolding create_hybrid_image_def hybrid_normalize_float32
    using that by (simp add: hybrid_normalize_def)
  moreover have "list_all (\<lambda>v. 0 \<le> v \<and> v \<le> 1) (buf (to_unit_float32 img))"
    if "dtype img = UInt8" "u8_ok img"
    using that is_u8_unit by (auto simp: u8_ok_def to_unit_float32_props list_all_iff)
  ultimately show ?thesis
    by (simp add: hybrid_normalize_def to_unit_float32_props)
qed


theorem create_hybrid_image_normalization_witness:
  "dtype \<lparr>dtype = UInt8, shape = [1, 1], buf = [51]\<rparr> = UInt8
   \<and> u8_ok \<lparr>dtype = UInt8, shape = [1, 1], buf = [51]\<rparr>
   \<and> hybrid_normalize \<lparr>dtype = UInt8, shape = [1, 1], buf = [51]\<rparr>
         \<lparr>dtype = UInt8, shape = [1, 1], buf = [255]\<rparr>
       = (\<lparr>dtype = Float32, shape = [1, 1], buf = [1 / 5]\<rparr>,
          \<lparr>dtype = Float32, shape = [1, 1], buf = [1]\<rparr>)
   \<and> list_all (\<lambda>v. 0 \<le> v \<and> v \<le> 1)
         (buf (to_unit_float32 \<lparr>dtype = UInt8, shape = [1, 1], buf = [51]\<rparr>))
   \<and> dtype \<lparr>dtype = Float64, shape = [1, 1], buf = [0]\<rparr> \<noteq> UInt8
   \<and> hybrid_normalize \<lparr>dtype = Float64, shape = [1, 1], buf = [0]\<rparr>
         \<lparr>dtype = UInt8, shape = [1, 1], buf = [51]\<rparr>
       = (\<lparr>dtype = Float64, shape = [1, 1], buf = [0]\<rparr>,
          \<lparr>dtype = UInt8, shape = [1, 1], buf = [51]\<rparr>)"
proof -
  let ?u = "\<lparr>dtype = UInt8, shape = [1, 1], buf = [51]\<rparr>"
  let ?v = "\<lparr>dtype = UInt8, shape = [1, 1], buf = [255]\<rparr>"
  let ?f = "\<lparr>dtype = Float64, shape = [1, 1], buf = [0]\<rparr>"
  have u: "u8_ok ?u" by (simp add: u8_ok_def is_u8_def)
  have t: "to_unit_float32 ?u = \<lparr>dtype = Float32, shape = [1, 1], buf = [1 / 5]\<rparr>"
      "to_unit_float32 ?v = \<lparr>dtype = Float32, shape = [1, 1], buf = [1]\<rparr>"
    by (simp_all add: to_unit_float32_def div_scalar_def)
  show ?thesis
    using u t create_hybrid_image_normalization[of ?u ?v 1 1 "''low''" 1 1 "''low''" 1 ?u]
      create_hybrid_image_normalization[of ?f ?u 1 1 "''low''" 1 1 "''low''" 1 ?u]
    by simp
qed

text \<open>
  The claim as the specification words it (each image on its own) fails when \<open>img1\<close> is
  float64 and \<open>img2\<close> is 8-bit: \<open>img2\<close> reaches its filter unconverted, and with the
  sample 51, both filters low-pass of size 1 and the ratio one half the result is 255,
  where the converted image gives 51.
\<close>

theorem create_hybrid_image_second_image_counterexample:
  "hybrid_normalize \<lparr>dtype = Float64, shape = [1, 1], buf = [0]\<rparr>
       \<lparr>dtype = UInt8, shape = [1, 1], buf = [51]\<rparr>
     = (\<lparr>dtype = Float64, shape = [1, 1], buf = [0]\<rparr>,
        \<lparr>dtype = UInt8, shape = [1, 1], buf = [51]\<rparr>)
   \<and> create_hybrid_image \<lparr>dtype = Float64, shape = [1, 1], buf = [0]\<rparr>
       \<lparr>dtype = UInt8, shape = [1, 1], buf = [51]\<rparr> 1 1 ''low'' 1 1 ''low'' (1 / 2)
     = Inr \<lparr>dtype = UInt8, shape = [1, 1], buf = [255]\<rparr>
   \<and> create_hybrid_image \<lparr>dtype = Float64, shape = [1, 1], buf = [0]\<rparr>
       \<lparr>dtype = Float32, shape = [1, 1], buf = [51 / 255]\<rparr> 1 1 ''low'' 1 1 ''low'' (1 / 2)
     = Inr \<lparr>dtype = UInt8, shape = [1, 1], buf = [51]\<rparr>"
proof -
  let ?a = "\<lparr>dtype = Float64, shape = [1, 1], buf = [0]\<rparr>"
  let ?b = "\<lparr>dtype = UInt8, shape = [1, 1], buf = [51]\<rparr>"
  let ?c = "\<lparr>dtype = Float32, shape = [1, 1], buf = [51 / 255]\<rparr>"
  let ?k = "\<lparr>dtype = Float64, shape = [1, 1], buf = [1]\<rparr>"
  have n1: "hybrid_normalize ?a ?b = (?a, ?b)" and n2: "hybrid_normalize ?a ?c = (?a, ?c)"
    by (simp_all add: hybrid_normalize_def)
  have ca: "convolve_2d ?a ?k = Inr ?a" by code_simp
  have cb: "convolve_2d ?b ?k = Inr \<lparr>dtype = Float64, shape = [1, 1], buf = [51]\<rparr>" by code_simp
  have cc: "convolve_2d ?c ?k = Inr \<lparr>dtype = Float64, shape = [1, 1], buf = [51 / 255]\<rparr>" by code_simp
  have fa: "hybrid_filter (lower ''low'') ?a 1 1 = Inr ?a"
    and fb: "hybrid_filter (lower ''low'') ?b 1 1 = Inr \<lparr>dtype = Float64, shape = [1, 1], buf = [51]\<rparr>"
    and fc: "hybrid_filter (lower ''low'') ?c 1 1 = Inr \<lparr>dtype = Float64, shape = [1, 1], buf = [51 / 255]\<rparr>"
    using ca cb cc by (simp_all add: hybrid_filter_def lower_low low_pass_1x1)
  have t1: "(case imul_scalar ?a (PyFloat (2 * (1 - 1 / 2))) of
      Inl e \<Rightarrow> Inl e
    | Inr img1 \<Rightarrow>
   (case imul_scalar \<lparr>dtype = Float64, shape = [1, 1], buf = [51]\<rparr> (PyFloat (2 * (1 / 2))) of
      Inl e \<Rightarrow> Inl e
    | Inr img2 \<Rightarrow>
   (case binop (+) img1 img2 of
      Inl e \<Rightarrow> Inl e
    | Inr hybrid_img \<Rightarrow> Inr (to_uint8_image hybrid_img)))) = Inr \<lparr>dtype = UInt8, shape = [1, 1], buf = [255]\<rparr>"
    by code_simp
  have t2: "(case imul_scalar ?a (PyFloat (2 * (1 - 1 / 2))) of
      Inl e \<Rightarrow> Inl e
    | Inr img1 \<Rightarrow>
   (case imul_scalar \<lparr>dtype = Float64, shape = [1, 1], buf = [51 / 255]\<rparr> (PyFloat (2 * (1 / 2))) of
      Inl e \<Rightarrow> Inl e
    | Inr img2 \<Rightarrow>
   (case binop (+) img1 img2 of
      Inl e \<Rightarrow> Inl e
    | Inr hybrid_img \<Rightarrow> Inr (to_uint8_image hybrid_img)))) = Inr \<lparr>dtype = UInt8, shape = [1, 1], buf = [51]\<rparr>"
    by code_simp
  have r1: "create_hybrid_image ?a ?b 1 1 ''low'' 1 1 ''low'' (1 / 2)
              = Inr \<lparr>dtype = UInt8, shape = [1, 1], buf = [255]\<rparr>"
    by (rule hybrid_tail[OF t1]) (use n1 fa fb in simp_all)
  have r2: "create_hybrid_image ?a ?c 1 1 ''low'' 1 1 ''low'' (1 / 2)
              = Inr \<lparr>dtype = UInt8, shape = [1, 1], buf = [51]\<rparr>"
    by (rule hybrid_tail[OF t2]) (use n2 fa fc in simp_all)
  show ?thesis using n1 r1 r2 by simp
qed

section \<open>Upsampling, and the difference that the reconstruction adds back\<close>

lemma zeros_mk: "zeros s d = mk d s (\<lambda>idx. 0)"
  by (simp add: zeros_def mk_def map_replicate_const length_indices)

lemma assignable_rev_same [simp]: "assignable_rev s s"
  by (induction s) auto

lemma assignable_same [simp]: "assignable s s"
  by (simp add: assignable_def)

lemma half_up: "Suc (2 * H - io) div 2 = H" if "io < 2" for H io :: nat
  using that by (cases "io = 0") auto

lemma assign_strided_mk:
  assumes src: "shape src = [H, W, 3]" and io: "io < 2" "jo < 2"
  shows "assign_strided (mk d [2 * H, 2 * W, 3] f) io jo src =
           Inr (mk d [2 * H, 2 * W, 3]
                  (\<lambda>idx. if idx ! 0 mod 2 = io \<and> idx ! 1 mod 2 = jo
                         then cast d (get src [idx ! 0 div 2, idx ! 1 div 2, idx ! 2])
                         else f idx))"
proof -
  have in_src: "bget src [i div 2, j div 2, c] = get src [i div 2, j div 2, c]"
    if "i < 2 * H" "j < 2 * W" "c < 3" for i j c
  proof -
    have "i div 2 < H" "j div 2 < W" using that by presburger+
    then show ?thesis using that src by (intro bget_same) (simp add: in_indices3)
  qed
  show ?thesis
    using src io
    by (auto simp: assign_strided_def Let_def half_up get_mk in_indices3 in_src intro!: mk_cong)
qed

lemma upsample_rgb:
  assumes src: "shape src = [H, W, 3]"
  shows "upsample d src =
           Inr (mk d [2 * H, 2 * W, 3]
                  (\<lambda>idx. cast d (get src [idx ! 0 div 2, idx ! 1 div 2, idx ! 2])))"
proof -
  have "upsample d src =
          Inr (mk d [2 * H, 2 * W, 3]
                 (\<lambda>idx. if idx ! 0 mod 2 = 1 \<and> idx ! 1 mod 2 = 1
                        then cast d (get src [idx ! 0 div 2, idx ! 1 div 2, idx ! 2])
                        else if idx ! 0 mod 2 = 1 \<and> idx ! 1 mod 2 = 0
                        then cast d (get src [idx ! 0 div 2, idx ! 1 div 2, idx ! 2])
                        else if idx ! 0 mod 2 = 0 \<and> idx ! 1 mod 2 = 1
                        then cast d (get src [idx ! 0 div 2, idx ! 1 div 2, idx ! 2])
                        else if idx ! 0 mod 2 = 0 \<and> idx ! 1 mod 2 = 0
                        then cast d (get src [idx ! 0 div 2, idx ! 1 div 2, idx ! 2])
                        else 0))"
    using src by (simp add: upsample_def zeros_mk assign_strided_mk[OF src] cong: if_cong)
  also have "\<dots> = Inr (mk d [2 * H, 2 * W, 3]
                  (\<lambda>idx. cast d (get src [idx ! 0 div 2, idx ! 1 div 2, idx ! 2])))"
    by (auto intro!: mk_cong)
  finally show ?thesis .
qed

lemma blur_1d_kernel: "shape blur_1d = [1, 5]" "dtype blur_1d \<noteq> UInt8"
  by (simp_all add: blur_1d_def)

lemma separable_filter_rgb:
  assumes "shape a = [h, w, 3]"
  shows "\<exists>b. separable_filter a blur_1d = Inr b \<and> shape b = [h, w, 3] \<and> dtype b = Float64"
proof -
  obtain t where t: "cross_correlation_2d a blur_1d = Inr t" "shape t = [h, w, 3]"
    using cc3[OF assms _ blur_1d_kernel] by simp
  have "shape (transpose_nd blur_1d) = [5, 1]" "dtype (transpose_nd blur_1d) \<noteq> UInt8"
    using blur_1d_kernel by simp_all
  from cc3[OF t(2) _ this] t(1) show ?thesis
    by (simp add: separable_filter_def)
qed

lemma decimate_rgb:
  assumes "shape b = [h, w, 3]"
  shows "\<exists>c. decimate b = Inr c \<and> shape c = [(h + 1) div 2, (w + 1) div 2, 3]
             \<and> dtype c = dtype b \<and> length (buf c) = prod_list (shape c)"
  using assms by (simp add: decimate_def)

lemma is_u8_wrap [simp]: "is_u8 (wrap_u8 k)"
  by (simp add: is_u8_def wrap_u8_def)

lemma u8_ok_float [simp]: "dtype a \<noteq> UInt8 \<Longrightarrow> u8_ok a"
  by (simp add: u8_ok_def)

lemma u8_ok_mk_cast [simp]: "u8_ok (mk d s (\<lambda>idx. cast d (f idx)))"
  by (auto simp: u8_ok_def buf_mk cast_def list_all_iff)

lemma trunc_of_int [simp]: "trunc (of_int k) = k"
  by (simp add: trunc_def)

lemma is_u8_D: "is_u8 v \<Longrightarrow> \<exists>k. v = of_int k \<and> 0 \<le> k \<and> k < 256"
  unfolding is_u8_def by (metis of_int_0_le_iff of_int_less_numeral_iff)

lemma u8_sub_add:
  assumes "is_u8 a" "is_u8 u"
  shows "cast UInt8 (cast UInt8 (a - u) + u) = a"
proof -
  from is_u8_D[OF assms(1)] obtain ka where a: "a = of_int ka" "0 \<le> ka" "ka < 256" by blast
  from is_u8_D[OF assms(2)] obtain ku where u: "u = of_int ku" by blast
  have "cast UInt8 (a - u) = of_int ((ka - ku) mod 256)"
    unfolding a u by (simp add: cast_def wrap_u8_def flip: of_int_diff)
  then have "cast UInt8 (cast UInt8 (a - u) + u) = of_int (((ka - ku) mod 256 + ku) mod 256)"
    unfolding u by (simp add: cast_def wrap_u8_def flip: of_int_add)
  also have "((ka - ku) mod 256 + ku) mod 256 = ka mod 256"
    by (simp add: mod_add_left_eq)
  also have "ka mod 256 = ka" using a by simp
  finally show ?thesis using a by simp
qed

lemma offset_less: "idx \<in> set (indices s) \<Longrightarrow> offset s idx < prod_list s"
proof -
  assume "idx \<in> set (indices s)"
  then have "offset s idx \<in> set (map (offset s) (indices s))" by simp
  then show ?thesis unfolding map_offset_indices by simp
qed

lemma get_is_u8:
  assumes "dtype a = UInt8" "u8_ok a" "length (buf a) = prod_list (shape a)"
    and "idx \<in> set (indices (shape a))"
  shows "is_u8 (get a idx)"
  using assms offset_less[OF assms(4)]
  by (simp add: u8_ok_def get_def list_all_length)

lemma sub_iadd_cancel:
  assumes a: "length (buf a) = prod_list (shape a)" "u8_ok a"
    and u: "shape u = shape a" "length (buf u) = prod_list (shape u)" "u8_ok u"
    and d: "dtype a = Float64 \<or> dtype u = dtype a"
  shows "\<exists>l. binop (-) a u = Inr l \<and> iadd l u = Inr a \<and> dtype l = dtype a \<and> u8_ok l
            \<and> shape l = shape a"
proof -
  let ?d = "dtype a" and ?s = "shape a"
  let ?l = "mk ?d ?s (\<lambda>idx. cast ?d (get a idx - get u idx))"
  have p: "promote ?d (dtype u) = ?d"
    using d by (cases "dtype a") (auto simp: promote_def)
  have l: "binop (-) a u = Inr ?l"
    using u(1) p by (simp add: binop_same[of a u])
  have ty: "\<not> (dtype ?l = UInt8 \<and> dtype u \<noteq> UInt8)"
    using d by auto
  have pt: "cast ?d (get ?l idx + get u idx) = get a idx" if "idx \<in> set (indices ?s)" for idx
  proof (cases "?d = UInt8")
    case True
    then have du: "dtype u = UInt8" using d by auto
    have "is_u8 (get a idx)" using get_is_u8[OF True a(2,1) that] .
    moreover have "is_u8 (get u idx)" using get_is_u8[OF du u(3,2)] that u(1) by simp
    ultimately show ?thesis using True that by (simp add: get_mk u8_sub_add)
  next
    case False
    then show ?thesis using that by (simp add: get_mk)
  qed
  have "iadd ?l u = Inr (mk ?d ?s (\<lambda>idx. cast ?d (get ?l idx + get u idx)))"
    using ty u(1) by (auto simp: iadd_def bget_same intro!: mk_cong)
  also have "mk ?d ?s (\<lambda>idx. cast ?d (get ?l idx + get u idx)) = mk ?d ?s (get a)"
    by (rule mk_cong) (rule pt)
  also have "\<dots> = a" using a(1) by (rule mk_get)
  finally show ?thesis using l by simp
qed

section \<open>The loops of the pyramid on a three-channel image\<close>

lemma half_even: "2 dvd h \<Longrightarrow> (h + 1) div 2 = h div 2" for h :: nat
  by presburger

lemma dvd_half: "2 ^ Suc n dvd h \<Longrightarrow> 2 ^ n dvd h div 2" for h :: nat
  by (auto simp: dvd_def)

lemma gau_steps_rgb:
  assumes "length gau = a" "1 \<le> a" "shape (gau ! (a - 1)) = [h, w, 3]"
    and "2 ^ n dvd h" "2 ^ n dvd w"
  shows "\<exists>more. gau_steps [a..<a + n] gau = Inr (gau @ more) \<and> length more = n \<and>
           (\<forall>i<n. dtype (more ! i) = Float64
                 \<and> length (buf (more ! i)) = prod_list (shape (more ! i))
                 \<and> shape (more ! i) = [h div 2 ^ Suc i, w div 2 ^ Suc i, 3])"
  using assms
proof (induction n arbitrary: gau a h w)
  case 0
  then show ?case by simp
next
  case (Suc n)
  have ev: "2 dvd h" "2 dvd w"
    using Suc.prems(4,5) by (auto simp: dvd_def)
  obtain b where b: "separable_filter (gau ! (a - 1)) blur_1d = Inr b"
      "shape b = [h, w, 3]" "dtype b = Float64"
    using separable_filter_rgb[OF Suc.prems(3)] by blast
  obtain c where c: "decimate b = Inr c" "shape c = [h div 2, w div 2, 3]"
      "dtype c = Float64" "length (buf c) = prod_list (shape c)"
    using decimate_rgb[OF b(2)] b(3) ev by (auto simp: half_even)
  have "\<exists>more. gau_steps [Suc a..<Suc a + n] (gau @ [c]) = Inr ((gau @ [c]) @ more)
          \<and> length more = n \<and>
           (\<forall>i<n. dtype (more ! i) = Float64
                 \<and> length (buf (more ! i)) = prod_list (shape (more ! i))
                 \<and> shape (more ! i) = [(h div 2) div 2 ^ Suc i, (w div 2) div 2 ^ Suc i, 3])"
    using Suc.prems c(2) by (intro Suc.IH) (simp_all add: dvd_half nth_append)
  then obtain more where more: "gau_steps [Suc a..<Suc a + n] (gau @ [c]) = Inr ((gau @ [c]) @ more)"
      "length more = n"
      "\<And>i. i < n \<Longrightarrow> dtype (more ! i) = Float64
                 \<and> length (buf (more ! i)) = prod_list (shape (more ! i))
                 \<and> shape (more ! i) = [(h div 2) div 2 ^ Suc i, (w div 2) div 2 ^ Suc i, 3]"
    by blast
  have up: "[a..<a + Suc n] = a # [Suc a..<Suc a + n]"
    by (simp add: upt_conv_Cons)
  have "gau_steps [a..<a + Suc n] gau = Inr (gau @ (c # more))"
    unfolding up using b(1) c(1) more(1) by simp
  moreover have "dtype ((c # more) ! i) = Float64
                 \<and> length (buf ((c # more) ! i)) = prod_list (shape ((c # more) ! i))
                 \<and> shape ((c # more) ! i) = [h div 2 ^ Suc i, w div 2 ^ Suc i, 3]"
    if "i < Suc n" for i
  proof (cases i)
    case 0
    then show ?thesis using c by simp
  next
    case (Suc j)
    then have "j < n" using that by simp
    have e: "(x div 2) div 2 ^ Suc j = x div 2 ^ Suc (Suc j)" for x :: nat
      using div_mult2_eq[of x 2 "2 ^ Suc j"] by simp
    from more(3)[OF \<open>j < n\<close>] show ?thesis
      unfolding Suc e by simp
  qed
  ultimately show ?case using more(2) by (intro exI[of _ "c # more"]) simp
qed

lemma upsample_rgb_props:
  assumes "shape src = [H, W, 3]"
  shows "\<exists>up. upsample d src = Inr up \<and> shape up = [2 * H, 2 * W, 3] \<and> dtype up = d
            \<and> length (buf up) = prod_list (shape up) \<and> u8_ok up"
  unfolding upsample_rgb[OF assms] by simp

lemma lap_steps_rgb:
  assumes sh: "\<And>k. k \<le> j \<Longrightarrow> shape (g ! k) = [hs k, ws k, 3]
                        \<and> length (buf (g ! k)) = prod_list (shape (g ! k)) \<and> u8_ok (g ! k)"
    and dbl: "\<And>k. k < j \<Longrightarrow> hs k = 2 * hs (Suc k) \<and> ws k = 2 * ws (Suc k)"
    and fl: "\<And>k. 1 \<le> k \<Longrightarrow> k \<le> j \<Longrightarrow> dtype (g ! k) = Float64"
    and d0: "dtype (g ! 0) = d"
  shows "\<exists>ls. lap_steps d g (rev [1..<Suc j]) lap = Inr (ls @ lap) \<and> length ls = j \<and>
           (\<forall>k<j. \<exists>up. upsample d (g ! Suc k) = Inr up \<and> iadd (ls ! k) up = Inr (g ! k)
                      \<and> dtype (ls ! k) = dtype (g ! k) \<and> u8_ok (ls ! k)
                      \<and> shape (ls ! k) = shape (g ! k))"
  using assms
proof (induction j arbitrary: lap)
  case 0
  then show ?case by simp
next
  case (Suc j)
  obtain up where up: "upsample d (g ! Suc j) = Inr up" "shape up = [2 * hs (Suc j), 2 * ws (Suc j), 3]"
      "dtype up = d" "length (buf up) = prod_list (shape up)" "u8_ok up"
    using upsample_rgb_props[of "g ! Suc j" "hs (Suc j)" "ws (Suc j)" d] Suc.prems(1)[of "Suc j"]
    by auto
  have gj: "shape (g ! j) = [hs j, ws j, 3]" "length (buf (g ! j)) = prod_list (shape (g ! j))"
      "u8_ok (g ! j)"
    using Suc.prems(1)[of j] by simp_all
  have same: "shape up = shape (g ! j)"
    using up(2) gj(1) Suc.prems(2)[of j] by simp
  have dt: "dtype (g ! j) = Float64 \<or> dtype up = dtype (g ! j)"
  proof (cases j)
    case 0
    then show ?thesis using up(3) Suc.prems(4) by simp
  next
    case (Suc i)
    then show ?thesis using Suc.prems(3)[of j] by simp
  qed
  obtain l where l: "binop (-) (g ! j) up = Inr l" "iadd l up = Inr (g ! j)"
      "dtype l = dtype (g ! j)" "u8_ok l" "shape l = shape (g ! j)"
    using sub_iadd_cancel[OF gj(2,3) same up(4,5) dt] by blast
  have "\<exists>ls. lap_steps d g (rev [1..<Suc j]) (l # lap) = Inr (ls @ (l # lap)) \<and> length ls = j \<and>
           (\<forall>k<j. \<exists>up. upsample d (g ! Suc k) = Inr up \<and> iadd (ls ! k) up = Inr (g ! k)
                      \<and> dtype (ls ! k) = dtype (g ! k) \<and> u8_ok (ls ! k)
                      \<and> shape (ls ! k) = shape (g ! k))"
    using Suc.prems by (intro Suc.IH) simp_all
  then obtain ls where ls: "lap_steps d g (rev [1..<Suc j]) (l # lap) = Inr (ls @ (l # lap))"
      "length ls = j"
      "\<And>k. k < j \<Longrightarrow> \<exists>up. upsample d (g ! Suc k) = Inr up \<and> iadd (ls ! k) up = Inr (g ! k)
                      \<and> dtype (ls ! k) = dtype (g ! k) \<and> u8_ok (ls ! k)
                      \<and> shape (ls ! k) = shape (g ! k)"
    by blast
  have "lap_steps d g (rev [1..<Suc (Suc j)]) lap = Inr ((ls @ [l]) @ lap)"
    using up(1) l(1) ls(1) by simp
  moreover have "\<exists>up. upsample d (g ! Suc k) = Inr up \<and> iadd ((ls @ [l]) ! k) up = Inr (g ! k)
                      \<and> dtype ((ls @ [l]) ! k) = dtype (g ! k) \<and> u8_ok ((ls @ [l]) ! k)
                      \<and> shape ((ls @ [l]) ! k) = shape (g ! k)"
    if "k < Suc j" for k
  proof (cases "k < j")
    case True
    then show ?thesis using ls(3)[OF True] ls(2) by (simp add: nth_append)
  next
    case False
    then have "k = j" using that by simp
    then show ?thesis using up(1) l ls(2) by (simp add: nth_append)
  qed
  ultimately show ?case using ls(2) by (intro exI[of _ "ls @ [l]"]) simp
qed

lemma rec_steps_rgb:
  assumes "j < length copy" "copy ! j = g ! j"
    and "\<And>k. k < j \<Longrightarrow> \<exists>up. upsample d (g ! Suc k) = Inr up \<and> iadd (copy ! k) up = Inr (g ! k)"
    and "dtype (copy ! 0) = d" "dtype (g ! 0) = d"
  shows "\<exists>c'. rec_steps (rev [1..<Suc j]) copy = Inr c' \<and> c' ! 0 = g ! 0"
  using assms
proof (induction j arbitrary: copy)
  case 0
  then show ?case by simp
next
  case (Suc j)
  from Suc.prems(3)[of j] obtain up where up: "upsample d (g ! Suc j) = Inr up"
      "iadd (copy ! j) up = Inr (g ! j)" by auto
  let ?c1 = "copy[j := g ! j]"
  have "\<exists>c'. rec_steps (rev [1..<Suc j]) ?c1 = Inr c' \<and> c' ! 0 = g ! 0"
  proof (intro Suc.IH)
    show "j < length ?c1" using Suc.prems(1) by simp
    show "?c1 ! j = g ! j" using Suc.prems(1) by simp
    show "\<exists>up. upsample d (g ! Suc k) = Inr up \<and> iadd (?c1 ! k) up = Inr (g ! k)"
      if "k < j" for k
      using Suc.prems(3)[of k] that by simp
    show "dtype (?c1 ! 0) = d"
    proof (cases j)
      case 0
      moreover have "0 < length copy" using Suc.prems(1) by linarith
      ultimately show ?thesis using Suc.prems(5) by simp
    next
      case (Suc i)
      then show ?thesis using Suc.prems(4) by simp
    qed
    show "dtype (g ! 0) = d" by (rule Suc.prems(5))
  qed
  then show ?case
    using up Suc.prems(2,4) by simp
qed

lemma dbl_div: "2 ^ n dvd H \<Longrightarrow> k < n \<Longrightarrow> H div 2 ^ k = 2 * (H div 2 ^ Suc k)" for H :: nat
proof -
  assume d: "2 ^ n dvd H" and k: "k < n"
  have "(2::nat) ^ Suc k dvd 2 ^ n" using k by (intro le_imp_power_dvd) simp
  then have "2 ^ Suc k dvd H" using d by (rule dvd_trans)
  then obtain q where "H = 2 ^ Suc k * q" by (auto simp: dvd_def)
  then show ?thesis by simp
qed

lemma round_trip_rgb:
  assumes wf: "wf img" and sh: "shape img = [H, W, 3]" and L: "1 \<le> levels"
    and dv: "2 ^ (levels - 1) dvd H" "2 ^ (levels - 1) dvd W"
  shows "\<exists>pyr. construct_laplacian img levels = Inr pyr \<and> length pyr = levels
             \<and> reconstruct_laplacian pyr None = Inr img"
proof -
  let ?n = "levels - 1"
  let ?d = "dtype img"
  obtain more where more: "gau_steps [1..<1 + ?n] [img] = Inr ([img] @ more)" "length more = ?n"
      "\<And>i. i < ?n \<Longrightarrow> dtype (more ! i) = Float64
                 \<and> length (buf (more ! i)) = prod_list (shape (more ! i))
                 \<and> shape (more ! i) = [H div 2 ^ Suc i, W div 2 ^ Suc i, 3]"
    using gau_steps_rgb[of "[img]" 1 H W ?n] sh dv by auto
  let ?g = "img # more"
  have gs: "gau_steps [1..<levels] [img] = Inr ?g"
    using more(1) L by simp
  have lev: "shape (?g ! k) = [H div 2 ^ k, W div 2 ^ k, 3]
              \<and> length (buf (?g ! k)) = prod_list (shape (?g ! k)) \<and> u8_ok (?g ! k)"
    if "k \<le> ?n" for k
  proof (cases k)
    case 0
    then show ?thesis using wf sh by (simp add: wf_def)
  next
    case (Suc i)
    then have "i < ?n" using that by simp
    from more(3)[OF this] show ?thesis using Suc by simp
  qed
  have fl: "dtype (?g ! k) = Float64" if "1 \<le> k" "k \<le> ?n" for k
  proof (cases k)
    case 0
    then show ?thesis using that by simp
  next
    case (Suc i)
    then have "i < ?n" using that by simp
    from more(3)[OF this] show ?thesis using Suc by simp
  qed
  have dbl: "H div 2 ^ k = 2 * (H div 2 ^ Suc k) \<and> W div 2 ^ k = 2 * (W div 2 ^ Suc k)"
    if "k < ?n" for k
    using dbl_div[OF dv(1) that] dbl_div[OF dv(2) that] by simp
  obtain ls where ls: "lap_steps ?d ?g (rev [1..<Suc ?n]) [?g ! ?n] = Inr (ls @ [?g ! ?n])"
      "length ls = ?n"
      "\<And>k. k < ?n \<Longrightarrow> \<exists>up. upsample ?d (?g ! Suc k) = Inr up \<and> iadd (ls ! k) up = Inr (?g ! k)
                      \<and> dtype (ls ! k) = dtype (?g ! k) \<and> u8_ok (ls ! k)
                      \<and> shape (ls ! k) = shape (?g ! k)"
    using lap_steps_rgb[of ?n ?g "\<lambda>k. H div 2 ^ k" "\<lambda>k. W div 2 ^ k" ?d "[?g ! ?n]",
            OF lev dbl fl] by auto
  let ?pyr = "ls @ [?g ! ?n]"
  have SL: "Suc ?n = levels" using L by simp
  have c: "construct_laplacian img levels = Inr ?pyr"
    using sh L dv gs ls(1) unfolding SL
    by (simp add: construct_laplacian_def mod_eq_0_iff_dvd)
  have len: "length ?pyr = levels" using ls(2) L by simp
  have last: "?pyr ! ?n = ?g ! ?n" using ls(2) by (simp add: nth_append)
  have d0: "dtype (?pyr ! 0) = ?d"
  proof (cases "?n")
    case 0
    then show ?thesis using ls(2) by simp
  next
    case (Suc i)
    then have "0 < ?n" by simp
    from ls(3)[OF this] show ?thesis using ls(2) Suc by (auto simp: nth_append)
  qed
  have "\<exists>c'. rec_steps (rev [1..<Suc ?n]) ?pyr = Inr c' \<and> c' ! 0 = ?g ! 0"
  proof (rule rec_steps_rgb[where d = ?d])
    show "?n < length ?pyr" using ls(2) by simp
    show "?pyr ! ?n = ?g ! ?n" by (rule last)
    show "\<exists>up. upsample ?d (?g ! Suc k) = Inr up \<and> iadd (?pyr ! k) up = Inr (?g ! k)"
      if "k < ?n" for k
      using ls(3)[OF that] ls(2) that by (auto simp: nth_append)
    show "dtype (?pyr ! 0) = ?d" by (rule d0)
    show "dtype (?g ! 0) = ?d" by simp
  qed
  then obtain c' where c': "rec_steps (rev [1..<levels]) ?pyr = Inr c'" "c' ! 0 = img"
    unfolding SL by auto
  have rk: "\<not> length (shape (?pyr ! (levels - 1))) < 2"
    using last lev[of ?n] by simp
  have "reconstruct_laplacian ?pyr None = Inr img"
    using len L rk c' by (simp add: reconstruct_laplacian_def Let_def)
  then show ?thesis using c len by blast
qed


section \<open>Properties of \<open>construct_laplacian\<close> and \<open>reconstruct_laplacian\<close>\<close>

text \<open>
  C1. The round trip \<open>reconstruct_laplacian (construct_laplacian img levels) = img\<close> is
  claimed for every image whose height and width are divisible by \<open>2^(levels-1)\<close>, and
  the docstring of \<open>construct_laplacian\<close> states the precondition for dimensions
  \<open>HxW[xC]\<close>. Lemma \<open>round_trip_rgb\<close> above proves the round trip for every well-formed
  image of shape \<open>[H, W, 3]\<close> and every positive number of levels, 8-bit images
  included. On a single-channel image the code does not get that far: with two levels
  the slice \<open>blurImg[::2,::2,:]\<close> puts three indices on a rank-2 array, and
  \<open>construct_laplacian\<close> raises \<open>IndexError\<close> on the 2-by-2 image below, whose
  dimensions are divisible by 2.
\<close>

theorem construct_laplacian_grayscale_fails:
  "construct_laplacian \<lparr>dtype = Float64, shape = [2, 2], buf = [1, 2, 3, 4]\<rparr> 2 = Inl IndexError"
  by code_simp


section \<open>Reconstruction with weights\<close>

lemma cast_u8_id: "is_u8 v \<Longrightarrow> cast UInt8 v = v"
proof -
  assume "is_u8 v"
  from is_u8_D[OF this] obtain k where "v = of_int k" "0 \<le> k" "k < 256" by blast
  then show ?thesis by (simp add: cast_def wrap_u8_def)
qed

lemma imul_scalar_one: "u8_ok a \<Longrightarrow> imul_scalar a (PyInt 1) = Inr a"
proof (cases "dtype a = UInt8")
  case True
  assume "u8_ok a"
  then have "map (\<lambda>v. cast UInt8 v) (buf a) = buf a"
    using True by (intro map_idI) (simp add: u8_ok_def list_all_iff cast_u8_id)
  then show ?thesis using True by (simp add: imul_scalar_def)
next
  case False
  then show ?thesis by (simp add: imul_scalar_def)
qed

lemma scale_steps_ones:
  assumes "\<And>a. a \<in> set copy \<Longrightarrow> u8_ok a" "\<And>lev. lev \<in> set xs \<Longrightarrow> lev < n \<and> lev < length copy"
  shows "scale_steps xs (replicate n (PyInt 1)) copy = Inr copy"
  using assms
proof (induction xs)
  case Nil
  then show ?case by simp
next
  case (Cons lev xs)
  have lev: "lev < n" "lev < length copy" using Cons.prems(2)[of lev] by simp_all
  then have ok: "u8_ok (copy ! lev)" using Cons.prems(1) by simp
  have "scale_steps xs (replicate n (PyInt 1)) copy = Inr copy"
    using Cons.prems by (intro Cons.IH) auto
  moreover have "\<not> length (replicate n (PyInt 1)) \<le> lev" using lev by simp
  ultimately show ?case using lev ok by (simp add: imul_scalar_one)
qed

lemma cross_correlation_2d_dtype: "cross_correlation_2d img k = Inr out \<Longrightarrow> dtype out = Float64"
  by (auto simp: cross_correlation_2d_def Let_def zeros_like_def zeros_def
           split: if_splits list.splits sum.splits)

lemma separable_filter_dtype: "separable_filter img k = Inr out \<Longrightarrow> dtype out = Float64"
  by (auto simp: separable_filter_def dest: cross_correlation_2d_dtype split: sum.splits)

lemma decimate_dtype: "decimate a = Inr b \<Longrightarrow> dtype b = dtype a"
  by (auto simp: decimate_def split: list.splits)

lemma gau_steps_u8_ok:
  assumes "gau_steps xs gau = Inr g" "\<And>a. a \<in> set gau \<Longrightarrow> u8_ok a"
  shows "(\<forall>a\<in>set g. u8_ok a) \<and> length g = length gau + length xs"
  using assms
proof (induction xs gau rule: gau_steps.induct)
  case (1 gau_pyr)
  then show ?case by simp
next
  case (2 currLev rest gau_pyr)
  from "2.prems"(1) obtain b c where b: "separable_filter (gau_pyr ! (currLev - 1)) blur_1d = Inr b"
      and c: "decimate b = Inr c" and r: "gau_steps rest (gau_pyr @ [c]) = Inr g"
    by (auto split: sum.splits)
  have "dtype c = Float64" using separable_filter_dtype[OF b] decimate_dtype[OF c] by simp
  then have "\<And>a. a \<in> set (gau_pyr @ [c]) \<Longrightarrow> u8_ok a" using "2.prems"(2) by auto
  from "2.IH"[OF b c r this] show ?case by simp
qed

lemma binop_u8_ok: "binop f a b = Inr l \<Longrightarrow> u8_ok l"
  by (auto simp: binop_def Let_def split: option.splits)

lemma lap_steps_u8_ok:
  assumes "lap_steps d g xs lap = Inr r" "\<And>a. a \<in> set lap \<Longrightarrow> u8_ok a"
  shows "\<forall>a\<in>set r. u8_ok a"
  using assms
proof (induction d g xs lap rule: lap_steps.induct)
  case (1 d gau_pyr lap_pyr)
  then show ?case by simp
next
  case (2 d gau_pyr currLev rest lap_pyr)
  from "2.prems"(1) obtain up l where up: "upsample d (gau_pyr ! currLev) = Inr up"
      and l: "binop (-) (gau_pyr ! (currLev - 1)) up = Inr l"
      and r: "lap_steps d gau_pyr rest (l # lap_pyr) = Inr r"
    by (auto split: sum.splits)
  have "\<And>a. a \<in> set (l # lap_pyr) \<Longrightarrow> u8_ok a"
    using binop_u8_ok[OF l] "2.prems"(2) by auto
  from "2.IH"[OF up l r this] show ?case .
qed

lemma construct_laplacian_u8_ok:
  assumes "u8_ok img" "construct_laplacian img levels = Inr pyr"
  shows "\<forall>a\<in>set pyr. u8_ok a"
proof -
  from assms(2) obtain g where g: "gau_steps [1..<levels] [img] = Inr g"
      and l: "lap_steps (dtype img) g (rev [1..<levels])
                [if levels = 0 then last g else g ! (levels - 1)] = Inr pyr"
    by (auto simp: construct_laplacian_def split: list.splits if_splits sum.splits)
  from gau_steps_u8_ok[OF g] assms(1)
  have ok: "\<forall>a\<in>set g. u8_ok a" and len: "length g = 1 + (levels - 1)" by auto
  have "g \<noteq> []" using len by auto
  then have "(if levels = 0 then last g else g ! (levels - 1)) \<in> set g"
    using len by auto
  then have "\<And>a. a \<in> set [if levels = 0 then last g else g ! (levels - 1)] \<Longrightarrow> u8_ok a"
    using ok by auto
  from lap_steps_u8_ok[OF l this] show ?thesis .
qed


text \<open>
  C9. For every pyramid \<open>pyr\<close> that \<open>construct_laplacian\<close> returns on a well-formed
  image, \<open>reconstruct_laplacian pyr [1]*len(pyr)\<close> (the weights are the Python integer
  1) is \<open>reconstruct_laplacian pyr\<close> without weights: the same image, or the same
  exception.
\<close>

theorem reconstruct_laplacian_unit_weights:
  assumes "u8_ok img" and "construct_laplacian img levels = Inr pyr"
  shows "reconstruct_laplacian pyr (Some (replicate (length pyr) (PyInt 1)))
           = reconstruct_laplacian pyr None"
proof -
  have "scale_steps [0..<length pyr] (replicate (length pyr) (PyInt 1)) pyr = Inr pyr"
    using construct_laplacian_u8_ok[OF assms] by (intro scale_steps_ones) auto
  then show ?thesis by (simp add: reconstruct_laplacian_def Let_def)
qed

theorem reconstruct_laplacian_unit_weights_witness:
  "u8_ok \<lparr>dtype = UInt8, shape = [2, 2, 3], buf = [1, 2, 3, 4, 5, 6, 7, 8, 9, 10, 11, 200]\<rparr>
   \<and> construct_laplacian
        \<lparr>dtype = UInt8, shape = [2, 2, 3], buf = [1, 2, 3, 4, 5, 6, 7, 8, 9, 10, 11, 200]\<rparr> 2
      = Inr [\<lparr>dtype = UInt8, shape = [2, 2, 3],
               buf = [0, 0, 245, 3, 3, 248, 6, 6, 251, 9, 9, 186]\<rparr>,
             \<lparr>dtype = Float64, shape = [1, 1, 3], buf = [115 / 64, 35 / 16, 917 / 64]\<rparr>]
   \<and> reconstruct_laplacian
        [\<lparr>dtype = UInt8, shape = [2, 2, 3],
               buf = [0, 0, 245, 3, 3, 248, 6, 6, 251, 9, 9, 186]\<rparr>,
             \<lparr>dtype = Float64, shape = [1, 1, 3], buf = [115 / 64, 35 / 16, 917 / 64]\<rparr>]
        (Some [PyInt 1, PyInt 1])
      = Inr \<lparr>dtype = UInt8, shape = [2, 2, 3], buf = [1, 2, 3, 4, 5, 6, 7, 8, 9, 10, 11, 200]\<rparr>"
proof -
  let ?img = "\<lparr>dtype = UInt8, shape = [2, 2, 3], buf = [1, 2, 3, 4, 5, 6, 7, 8, 9, 10, 11, 200]\<rparr>"
  let ?pyr = "[\<lparr>dtype = UInt8, shape = [2, 2, 3],
               buf = [0, 0, 245, 3, 3, 248, 6, 6, 251, 9, 9, 186]\<rparr>,
             \<lparr>dtype = Float64, shape = [1, 1, 3], buf = [115 / 64, 35 / 16, 917 / 64]\<rparr>]"
  have u: "u8_ok ?img" by (simp add: u8_ok_def is_u8_def)
  have c: "construct_laplacian ?img 2 = Inr ?pyr" by code_simp
  have r: "reconstruct_laplacian ?pyr None = Inr ?img" by code_simp
  from reconstruct_laplacian_unit_weights[OF u c] r
  have "reconstruct_laplacian ?pyr (Some [PyInt 1, PyInt 1]) = Inr ?img"
    by (simp add: numeral_2_eq_2)
  with u c show ?thesis by simp
qed

section \<open>Properties of the store: what a call leaves alone\<close>

lemma preserves_refl [simp]: "preserves st st"
  by (simp add: preserves_def)

lemma preserves_trans: "preserves st st1 \<Longrightarrow> preserves st1 st2 \<Longrightarrow> preserves st st2"
proof -
  assume a: "preserves st st1" and b: "preserves st1 st2"
  have "take (length st) st2 = take (length st) (take (length st1) st2)"
    using a by (simp add: preserves_def min_def)
  also have "\<dots> = take (length st) st1" using b by (simp add: preserves_def)
  also have "\<dots> = st" using a by (simp add: preserves_def)
  finally show ?thesis using a b by (simp add: preserves_def)
qed

lemma preserves_append [simp]: "preserves st (st @ xs)"
  by (simp add: preserves_def)

lemma preserves_update: "preserves st st1 \<Longrightarrow> length st \<le> a \<Longrightarrow> preserves st (st1[a := v])"
  by (simp add: preserves_def)

lemma fresh_mono:
  "fresh st1 st2 a \<Longrightarrow> preserves st st1 \<Longrightarrow> preserves st2 st3 \<Longrightarrow> fresh st st3 a"
  by (auto simp: fresh_def preserves_def)

lemma frame_seq:
  "preserves st st1 \<Longrightarrow> preserves st1 st2 \<and> fresh st1 st2 r
     \<Longrightarrow> preserves st st2 \<and> fresh st st2 r"
  using preserves_trans[of st st1 st2] fresh_mono[of st1 st2 r st st2] by simp

lemma alloc_frame: "alloc a st = (r, st') \<Longrightarrow> preserves st st' \<and> fresh st st' r"
  by (auto simp: alloc_def fresh_def)

lemma cross_correlation_2d_st_frame:
  "cross_correlation_2d_st st img kern = Inr (r, st') \<Longrightarrow> preserves st st' \<and> fresh st st' r"
  by (auto simp: cross_correlation_2d_st_def dest: alloc_frame split: sum.splits)

lemma convolve_2d_st_frame:
  assumes "convolve_2d_st st img kern = Inr (r, st')"
  shows "preserves st st' \<and> fresh st st' r"
proof -
  from assms obtain k kern' st1 where a: "alloc k st = (kern', st1)"
      and c: "cross_correlation_2d_st st1 img kern' = Inr (r, st')"
    by (auto simp: convolve_2d_st_def split: sum.splits prod.splits)
  from alloc_frame[OF a] have "preserves st st1" by simp
  from frame_seq[OF this cross_correlation_2d_st_frame[OF c]] show ?thesis .
qed

lemma gaussian_blur_kernel_2d_st_frame:
  "gaussian_blur_kernel_2d_st st sigma height width = Inr (r, st')
     \<Longrightarrow> preserves st st' \<and> fresh st st' r"
  by (auto simp: gaussian_blur_kernel_2d_st_def dest: alloc_frame split: sum.splits)

lemma low_pass_st_frame:
  assumes "low_pass_st st img sigma ksize = Inr (r, st')"
  shows "preserves st st' \<and> fresh st st' r"
proof -
  from assms obtain k st1 where a: "gaussian_blur_kernel_2d_st st sigma ksize ksize = Inr (k, st1)"
      and c: "convolve_2d_st st1 img k = Inr (r, st')"
    by (auto simp: low_pass_st_def split: sum.splits prod.splits)
  from gaussian_blur_kernel_2d_st_frame[OF a] have "preserves st st1" by simp
  from frame_seq[OF this convolve_2d_st_frame[OF c]] show ?thesis .
qed

lemma high_pass_st_frame:
  assumes "high_pass_st st img sigma ksize = Inr (r, st')"
  shows "preserves st st' \<and> fresh st st' r"
proof -
  from assms obtain k st1 low st2 high
    where a: "gaussian_blur_kernel_2d_st st sigma ksize ksize = Inr (k, st1)"
      and c: "convolve_2d_st st1 img k = Inr (low, st2)"
      and h: "alloc high st2 = (r, st')"
    by (auto simp: high_pass_st_def split: sum.splits prod.splits)
  from gaussian_blur_kernel_2d_st_frame[OF a] have "preserves st st1" by simp
  from frame_seq[OF this convolve_2d_st_frame[OF c]] have "preserves st st2" by simp
  from frame_seq[OF this alloc_frame[OF h]] show ?thesis .
qed

lemma separable_filter_st_frame:
  assumes "separable_filter_st st img kernel1d = Inr (r, st')"
  shows "preserves st st' \<and> fresh st st' r"
proof -
  from assms obtain t st1 kT st2
    where a: "cross_correlation_2d_st st img kernel1d = Inr (t, st1)"
      and b: "alloc (transpose_nd (st1 ! kernel1d)) st1 = (kT, st2)"
      and c: "cross_correlation_2d_st st2 t kT = Inr (r, st')"
    by (auto simp: separable_filter_st_def split: sum.splits prod.splits)
  from cross_correlation_2d_st_frame[OF a] have "preserves st st1" by simp
  from frame_seq[OF this alloc_frame[OF b]] have "preserves st st2" by simp
  from frame_seq[OF this cross_correlation_2d_st_frame[OF c]] show ?thesis .
qed

lemma hybrid_filter_st_frame:
  "hybrid_filter_st st high_low img sigma ksize = Inr (r, st')
     \<Longrightarrow> preserves st st' \<and> fresh st st' r"
  by (auto simp: hybrid_filter_st_def dest: low_pass_st_frame high_pass_st_frame split: if_splits)

lemma hybrid_normalize_st_frame:
  "hybrid_normalize_st st img1 img2 = (a1, a2, st') \<Longrightarrow> preserves st st'"
  by (auto simp: hybrid_normalize_st_def alloc_def preserves_def split: if_splits)

lemma imul_scalar_st_frame:
  "imul_scalar_st st1 a x = Inr st2 \<Longrightarrow> preserves st st1 \<Longrightarrow> length st \<le> a
     \<Longrightarrow> preserves st st2 \<and> length st2 = length st1"
  by (auto simp: imul_scalar_st_def intro: preserves_update split: sum.splits)

lemma iadd_st_frame:
  "iadd_st st1 a b = Inr st2 \<Longrightarrow> preserves st st1 \<Longrightarrow> length st \<le> a
     \<Longrightarrow> preserves st st2 \<and> length st2 = length st1"
  by (auto simp: iadd_st_def intro: preserves_update split: sum.splits)

lemma create_hybrid_image_st_frame:
  assumes "create_hybrid_image_st st img1 img2 sigma1 size1 high_low1 sigma2 size2 high_low2
             mixin_ratio = Inr (r, st')"
  shows "preserves st st' \<and> fresh st st' r"
proof -
  from assms obtain i1 i2 st1 a1 st2 a2 st3 st4 st5 hy h st6
    where n: "hybrid_normalize_st st img1 img2 = (i1, i2, st1)"
      and f1: "hybrid_filter_st st1 (lower high_low1) i1 sigma1 size1 = Inr (a1, st2)"
      and f2: "hybrid_filter_st st2 (lower high_low2) i2 sigma2 size2 = Inr (a2, st3)"
      and m1: "imul_scalar_st st3 a1 (PyFloat (2 * (1 - mixin_ratio))) = Inr st4"
      and m2: "imul_scalar_st st4 a2 (PyFloat (2 * mixin_ratio)) = Inr st5"
      and al: "alloc hy st5 = (h, st6)"
      and re: "alloc (to_uint8_image (st6 ! h)) st6 = (r, st')"
    by (auto simp: create_hybrid_image_st_def split: sum.splits prod.splits)
  have p1: "preserves st st1" using hybrid_normalize_st_frame[OF n] .
  have p2: "preserves st st2" "fresh st st2 a1"
    using frame_seq[OF p1 hybrid_filter_st_frame[OF f1]] by simp_all
  have p3: "preserves st st3" "fresh st st3 a2"
    using frame_seq[OF p2(1) hybrid_filter_st_frame[OF f2]] by simp_all
  have p4: "preserves st st4"
    using imul_scalar_st_frame[OF m1 p3(1)] p2(2) by (simp add: fresh_def)
  have p5: "preserves st st5"
    using imul_scalar_st_frame[OF m2 p4] p3(2) by (simp add: fresh_def)
  have p6: "preserves st st6" using frame_seq[OF p5 alloc_frame[OF al]] by simp
  show ?thesis using frame_seq[OF p6 alloc_frame[OF re]] .
qed

lemma preserves_length: "preserves st st' \<Longrightarrow> length st \<le> length st'"
  by (simp add: preserves_def)

lemma upsample_st_frame:
  "upsample_st d st a = Inr (r, st') \<Longrightarrow> preserves st st' \<and> fresh st st' r"
  by (auto simp: upsample_st_def dest: alloc_frame split: sum.splits)

lemma fresh_later:
  "fresh st1 st2 a \<Longrightarrow> length st0 \<le> length st1 \<Longrightarrow> length st2 \<le> length st3 \<Longrightarrow> fresh st0 st3 a"
  by (auto simp: fresh_def)

lemma gau_steps_st_frame:
  assumes "gau_steps_st xs blur gau st = Inr (g, st')" "preserves st0 st"
  shows "preserves st0 st' \<and> length st \<le> length st'
           \<and> (\<exists>more. g = gau @ more \<and> length more = length xs \<and> (\<forall>a\<in>set more. fresh st0 st' a))"
  using assms
proof (induction xs arbitrary: gau st)
  case Nil
  then show ?case by simp
next
  case (Cons currLev rest)
  from Cons.prems(1) obtain b st1 v b' st2
    where s: "separable_filter_st st (gau ! (currLev - 1)) blur = Inr (b, st1)"
      and a: "alloc v st1 = (b', st2)"
      and r: "gau_steps_st rest blur (gau @ [b']) st2 = Inr (g, st')"
    by (auto split: sum.splits prod.splits)
  have p1: "preserves st0 st1" "length st \<le> length st1"
    using separable_filter_st_frame[OF s] preserves_trans[OF Cons.prems(2)]
    by (auto dest: preserves_length)
  have p2: "preserves st0 st2" "fresh st1 st2 b'" "length st1 \<le> length st2"
    using frame_seq[OF p1(1) alloc_frame[OF a]] alloc_frame[OF a]
    by (auto dest: preserves_length)
  from Cons.IH[OF r p2(1)] obtain more where m: "preserves st0 st'" "length st2 \<le> length st'"
      "g = (gau @ [b']) @ more" "length more = length rest" "\<forall>a\<in>set more. fresh st0 st' a"
    by blast
  have "fresh st0 st' b'"
    using fresh_later[OF p2(2) _ m(2)] preserves_length[OF p1(1)] by simp
  then have "\<forall>a\<in>set (b' # more). fresh st0 st' a" using m(5) by simp
  moreover have "g = gau @ (b' # more)" using m(3) by simp
  moreover have "length (b' # more) = length (currLev # rest)" using m(4) by simp
  ultimately show ?case using m(1,2) p1(2) p2(3) by (intro conjI exI[of _ "b' # more"]) simp_all
qed

lemma lap_steps_st_frame:
  assumes "lap_steps_st d gau xs lap st = Inr (rs, st')" "preserves st0 st"
  shows "preserves st0 st' \<and> length st \<le> length st'
           \<and> (\<exists>ls. rs = ls @ lap \<and> length ls = length xs \<and> (\<forall>a\<in>set ls. fresh st0 st' a))"
  using assms
proof (induction xs arbitrary: lap st)
  case Nil
  then show ?case by simp
next
  case (Cons currLev rest)
  from Cons.prems(1) obtain up st1 l la st2
    where u: "upsample_st d st (gau ! currLev) = Inr (up, st1)"
      and a: "alloc l st1 = (la, st2)"
      and r: "lap_steps_st d gau rest (la # lap) st2 = Inr (rs, st')"
    by (auto split: sum.splits prod.splits)
  have p1: "preserves st0 st1" "length st \<le> length st1"
    using upsample_st_frame[OF u] preserves_trans[OF Cons.prems(2)]
    by (auto dest: preserves_length)
  have p2: "preserves st0 st2" "fresh st1 st2 la" "length st1 \<le> length st2"
    using frame_seq[OF p1(1) alloc_frame[OF a]] alloc_frame[OF a]
    by (auto dest: preserves_length)
  from Cons.IH[OF r p2(1)] obtain ls where m: "preserves st0 st'" "length st2 \<le> length st'"
      "rs = ls @ (la # lap)" "length ls = length rest" "\<forall>a\<in>set ls. fresh st0 st' a"
    by blast
  have "fresh st0 st' la"
    using fresh_later[OF p2(2) _ m(2)] preserves_length[OF p1(1)] by simp
  then have "\<forall>a\<in>set (ls @ [la]). fresh st0 st' a" using m(5) by simp
  moreover have "rs = (ls @ [la]) @ lap" using m(3) by simp
  moreover have "length (ls @ [la]) = length (currLev # rest)" using m(4) by simp
  ultimately show ?case using m(1,2) p1(2) p2(3) by (intro conjI exI[of _ "ls @ [la]"]) simp_all
qed

lemma construct_laplacian_st_frame:
  assumes "construct_laplacian_st st img levels = Inr (rs, st')"
  shows "preserves st st' \<and> (2 \<le> levels \<longrightarrow> (\<forall>a\<in>set rs. fresh st st' a))
           \<and> (levels \<le> 1 \<longrightarrow> rs = [img])"
proof -
  from assms obtain blur st1 g st2
    where b: "alloc blur_1d st = (blur, st1)"
      and gs: "gau_steps_st [1..<levels] blur [img] st1 = Inr (g, st2)"
      and ls: "lap_steps_st (dtype (st ! img)) g (rev [1..<levels])
                 [if levels = 0 then last g else g ! (levels - 1)] st2 = Inr (rs, st')"
    by (auto simp: construct_laplacian_st_def split: list.splits if_splits sum.splits prod.splits)
  have p1: "preserves st st1" using alloc_frame[OF b] by simp
  from gau_steps_st_frame[OF gs p1] obtain more where g: "preserves st st2"
      "g = [img] @ more" "length more = length [1..<levels]" "\<forall>a\<in>set more. fresh st st2 a"
    by blast
  from lap_steps_st_frame[OF ls g(1)] obtain ll where l: "preserves st st'" "length st2 \<le> length st'"
      "rs = ll @ [if levels = 0 then last g else g ! (levels - 1)]"
      "length ll = length (rev [1..<levels])" "\<forall>a\<in>set ll. fresh st st' a"
    by blast
  have small: "rs = [img]" if "levels \<le> 1"
  proof -
    have "length more = 0" "length ll = 0" using that g(3) l(4) by simp_all
    then have "more = []" "ll = []" by simp_all
    then show ?thesis using l(3) g(2) that by auto
  qed
  have big: "\<forall>a\<in>set rs. fresh st st' a" if "2 \<le> levels"
  proof -
    have "g ! (levels - 1) = more ! (levels - 2)"
      using that g(2) by (simp add: nth_Cons' numeral_2_eq_2)
    moreover have "levels - 2 < length more" using that g(3) by simp
    ultimately have "g ! (levels - 1) \<in> set more" by simp
    then have "fresh st st2 (g ! (levels - 1))" using g(4) by blast
    then have "fresh st st' (g ! (levels - 1))" using l(2) by (simp add: fresh_def)
    then show ?thesis using l(3,5) that by auto
  qed
  show ?thesis using l(1) small big by blast
qed

lemma deepcopy_st_frame:
  assumes "deepcopy_st memo as st = (rs, st')" "preserves st0 st"
    and "\<And>a a'. (a, a') \<in> set memo \<Longrightarrow> fresh st0 st a'"
  shows "preserves st0 st' \<and> length st \<le> length st' \<and> length rs = length as
           \<and> (\<forall>a\<in>set rs. fresh st0 st' a)"
  using assms
proof (induction as arbitrary: memo st rs)
  case Nil
  then show ?case by simp
next
  case (Cons a as)
  show ?case
  proof (cases "map_of memo a")
    case None
    from Cons.prems(1) None obtain a' st1 rs'
      where al: "alloc (st ! a) st = (a', st1)"
        and r: "deepcopy_st ((a, a') # memo) as st1 = (rs', st')" and rs: "rs = a' # rs'"
      by (auto split: prod.splits)
    have p1: "preserves st0 st1" "fresh st0 st1 a'" "length st \<le> length st1"
      using frame_seq[OF Cons.prems(2) alloc_frame[OF al]] alloc_frame[OF al]
      by (auto dest: preserves_length)
    have memo': "fresh st0 st1 b'" if "(b, b') \<in> set ((a, a') # memo)" for b b'
      using that p1(2,3) Cons.prems(3)[of b b'] by (auto simp: fresh_def)
    from Cons.IH[OF r p1(1) memo'] have i: "preserves st0 st'" "length st1 \<le> length st'"
        "length rs' = length as" "\<forall>a\<in>set rs'. fresh st0 st' a"
      by simp_all
    have "fresh st0 st' a'" using p1(2) i(2) by (simp add: fresh_def)
    then show ?thesis using i p1(3) rs by simp
  next
    case (Some a')
    from Cons.prems(1) Some obtain rs'
      where r: "deepcopy_st memo as st = (rs', st')" and rs: "rs = a' # rs'"
      by (auto split: prod.splits)
    from Cons.IH[OF r Cons.prems(2,3)] have i: "preserves st0 st'" "length st \<le> length st'"
        "length rs' = length as" "\<forall>a\<in>set rs'. fresh st0 st' a"
      by simp_all
    have "(a, a') \<in> set memo" using Some by (rule map_of_SomeD)
    then have "fresh st0 st a'" by (rule Cons.prems(3))
    then have "fresh st0 st' a'" using i(2) by (simp add: fresh_def)
    then show ?thesis using i rs by simp
  qed
qed

lemma scale_steps_st_frame:
  assumes "scale_steps_st xs ws copy st = Inr st'" "preserves st0 st"
    and "\<And>lev. lev \<in> set xs \<Longrightarrow> lev < length copy" "\<And>a. a \<in> set copy \<Longrightarrow> length st0 \<le> a"
  shows "preserves st0 st' \<and> length st' = length st"
  using assms
proof (induction xs arbitrary: st)
  case Nil
  then show ?case by simp
next
  case (Cons lev rest)
  from Cons.prems(1) obtain st1
    where m: "imul_scalar_st st (copy ! lev) (ws ! lev) = Inr st1"
      and r: "scale_steps_st rest ws copy st1 = Inr st'"
    by (auto split: if_splits sum.splits)
  have "length st0 \<le> copy ! lev" using Cons.prems(3)[of lev] Cons.prems(4) by simp
  from imul_scalar_st_frame[OF m Cons.prems(2) this]
  have p: "preserves st0 st1" "length st1 = length st" by simp_all
  from Cons.IH[OF r p(1)] Cons.prems(3,4) p(2) show ?case by simp
qed

lemma rec_steps_st_frame:
  assumes "rec_steps_st xs copy st = Inr st'" "preserves st0 st"
    and "\<And>lev. lev \<in> set xs \<Longrightarrow> lev - 1 < length copy" "\<And>a. a \<in> set copy \<Longrightarrow> length st0 \<le> a"
  shows "preserves st0 st' \<and> length st \<le> length st'"
  using assms
proof (induction xs arbitrary: st)
  case Nil
  then show ?case by simp
next
  case (Cons currLev rest)
  from Cons.prems(1) obtain up st1 st2
    where u: "upsample_st (dtype (st ! (copy ! 0))) st (copy ! currLev) = Inr (up, st1)"
      and i: "iadd_st st1 (copy ! (currLev - 1)) up = Inr st2"
      and r: "rec_steps_st rest copy st2 = Inr st'"
    by (auto split: sum.splits prod.splits)
  have p1: "preserves st0 st1" "length st \<le> length st1"
    using upsample_st_frame[OF u] preserves_trans[OF Cons.prems(2)]
    by (auto dest: preserves_length)
  have "length st0 \<le> copy ! (currLev - 1)"
    using Cons.prems(3)[of currLev] Cons.prems(4) by simp
  from iadd_st_frame[OF i p1(1) this]
  have p2: "preserves st0 st2" "length st2 = length st1" by simp_all
  from Cons.IH[OF r p2(1)] Cons.prems(3,4) p1(2) p2(2) show ?case by simp
qed

lemma reconstruct_laplacian_st_frame:
  assumes "reconstruct_laplacian_st st pyr weights = Inr (r, st')"
  shows "preserves st st' \<and> fresh st st' r"
proof -
  obtain copy st1 where d: "deepcopy_st [] pyr st = (copy, st1)"
    by (cases "deepcopy_st [] pyr st")
  from deepcopy_st_frame[OF d, of st] have c: "preserves st st1" "length copy = length pyr"
      "\<forall>a\<in>set copy. fresh st st1 a"
    by simp_all
  have ne: "copy \<noteq> []" and r0: "r = copy ! 0"
    using assms d by (auto simp: reconstruct_laplacian_st_def Let_def
                           split: if_splits option.splits sum.splits)
  have ge: "\<And>a. a \<in> set copy \<Longrightarrow> length st \<le> a" using c(3) by (simp add: fresh_def)
  have ix: "\<And>lev. lev \<in> set (rev [1..<length copy]) \<Longrightarrow> lev - 1 < length copy" by auto
  have "copy ! 0 \<in> set copy" using ne by simp
  then have f0: "fresh st st1 (copy ! 0)" using c(3) by blast
  have "preserves st st' \<and> length st1 \<le> length st'"
  proof (cases weights)
    case None
    then have "rec_steps_st (rev [1..<length copy]) copy st1 = Inr st'"
      using assms d by (auto simp: reconstruct_laplacian_st_def Let_def
                             split: if_splits sum.splits)
    from rec_steps_st_frame[OF this c(1) ix ge] show ?thesis by simp
  next
    case (Some ws)
    then obtain st2 where s: "scale_steps_st [0..<length copy] ws copy st1 = Inr st2"
        and rr: "rec_steps_st (rev [1..<length copy]) copy st2 = Inr st'"
      using assms d by (auto simp: reconstruct_laplacian_st_def Let_def
                             split: if_splits sum.splits)
    have "\<And>lev. lev \<in> set [0..<length copy] \<Longrightarrow> lev < length copy" by simp
    from scale_steps_st_frame[OF s c(1) this ge] have p: "preserves st st2" "length st2 = length st1"
      by simp_all
    from rec_steps_st_frame[OF rr p(1) ix ge] p(2) show ?thesis by simp
  qed
  then show ?thesis using f0 r0 by (simp add: fresh_def)
qed

text \<open>
  C7. Every operation that takes an array leaves all buffers of its caller with their
  contents (the store after the call begins with the store before it), and the buffer
  it returns is new. This holds for \<open>cross_correlation_2d\<close>, \<open>convolve_2d\<close>,
  \<open>low_pass\<close>, \<open>high_pass\<close>, \<open>separable_filter\<close>, \<open>create_hybrid_image\<close> and
  \<open>reconstruct_laplacian\<close>, which in particular leaves every level of the caller's
  pyramid unmodified. \<open>construct_laplacian\<close> leaves the buffers of its caller alone
  too, and with two or more levels every buffer in the list it returns is new; with
  one level (or none) the list it returns is \<open>[img]\<close>, the caller's image itself.
\<close>

theorem buffers_are_private:
  "(cross_correlation_2d_st st img kern = Inr (r, st') \<longrightarrow> preserves st st' \<and> fresh st st' r)
   \<and> (convolve_2d_st st img kern = Inr (r, st') \<longrightarrow> preserves st st' \<and> fresh st st' r)
   \<and> (low_pass_st st img sigma ksize = Inr (r, st') \<longrightarrow> preserves st st' \<and> fresh st st' r)
   \<and> (high_pass_st st img sigma ksize = Inr (r, st') \<longrightarrow> preserves st st' \<and> fresh st st' r)
   \<and> (separable_filter_st st img kern = Inr (r, st') \<longrightarrow> preserves st st' \<and> fresh st st' r)
   \<and> (create_hybrid_image_st st img img_b sigma ksize high_low_a sigma_b ksize_b high_low_b mixin_ratio
          = Inr (r, st') \<longrightarrow> preserves st st' \<and> fresh st st' r)
   \<and> (reconstruct_laplacian_st st pyr weights = Inr (r, st')
          \<longrightarrow> preserves st st' \<and> fresh st st' r)
   \<and> (construct_laplacian_st st img levels = Inr (rs, st')
          \<longrightarrow> preserves st st'
              \<and> (2 \<le> levels \<longrightarrow> (\<forall>a\<in>set rs. fresh st st' a))
              \<and> (levels \<le> 1 \<longrightarrow> rs = [img]))"
  using cross_correlation_2d_st_frame[of st img kern r st']
    convolve_2d_st_frame[of st img kern r st']
    low_pass_st_frame[of st img sigma ksize r st']
    high_pass_st_frame[of st img sigma ksize r st']
    separable_filter_st_frame[of st img kern r st']
    create_hybrid_image_st_frame[of st img img_b sigma ksize high_low_a sigma_b ksize_b high_low_b
      mixin_ratio r st']
    reconstruct_laplacian_st_frame[of st pyr weights r st']
    construct_laplacian_st_frame[of st img levels rs st']
  by blast


theorem buffers_are_private_witness:
  "(case construct_laplacian_st
           [\<lparr>dtype = UInt8, shape = [2, 2, 3],
              buf = [1, 2, 3, 4, 5, 6, 7, 8, 9, 10, 11, 200]\<rparr>] 0 2 of
      Inl e \<Rightarrow> False
    | Inr (rs, st') \<Rightarrow>
        rs = [7, 5]
        \<and> preserves [\<lparr>dtype = UInt8, shape = [2, 2, 3],
                        buf = [1, 2, 3, 4, 5, 6, 7, 8, 9, 10, 11, 200]\<rparr>] st'
        \<and> fresh [\<lparr>dtype = UInt8, shape = [2, 2, 3],
                    buf = [1, 2, 3, 4, 5, 6, 7, 8, 9, 10, 11, 200]\<rparr>] st' 7
        \<and> fresh [\<lparr>dtype = UInt8, shape = [2, 2, 3],
                    buf = [1, 2, 3, 4, 5, 6, 7, 8, 9, 10, 11, 200]\<rparr>] st' 5)
   \<and> (case reconstruct_laplacian_st
             [\<lparr>dtype = UInt8, shape = [2, 2, 3],
                buf = [0, 0, 245, 3, 3, 248, 6, 6, 251, 9, 9, 186]\<rparr>,
              \<lparr>dtype = Float64, shape = [1, 1, 3], buf = [115 / 64, 35 / 16, 917 / 64]\<rparr>]
             [0, 1] None of
        Inl e \<Rightarrow> False
      | Inr (r, st') \<Rightarrow>
          r = 2
          \<and> st' ! r = \<lparr>dtype = UInt8, shape = [2, 2, 3],
                        buf = [1, 2, 3, 4, 5, 6, 7, 8, 9, 10, 11, 200]\<rparr>
          \<and> preserves
               [\<lparr>dtype = UInt8, shape = [2, 2, 3],
                  buf = [0, 0, 245, 3, 3, 248, 6, 6, 251, 9, 9, 186]\<rparr>,
                \<lparr>dtype = Float64, shape = [1, 1, 3], buf = [115 / 64, 35 / 16, 917 / 64]\<rparr>]
               st')"
proof -
  let ?img = "\<lparr>dtype = UInt8, shape = [2, 2, 3], buf = [1, 2, 3, 4, 5, 6, 7, 8, 9, 10, 11, 200]\<rparr>"
  let ?p = "[\<lparr>dtype = UInt8, shape = [2, 2, 3],
                buf = [0, 0, 245, 3, 3, 248, 6, 6, 251, 9, 9, 186]\<rparr>,
              \<lparr>dtype = Float64, shape = [1, 1, 3], buf = [115 / 64, 35 / 16, 917 / 64]\<rparr>]"
  have "case construct_laplacian_st [?img] 0 2 of Inl e \<Rightarrow> False | Inr (rs, st') \<Rightarrow> rs = [7, 5]"
    by code_simp
  then obtain st1 where c: "construct_laplacian_st [?img] 0 2 = Inr ([7, 5], st1)"
    by (auto split: sum.splits)
  have "case reconstruct_laplacian_st ?p [0, 1] None of
          Inl e \<Rightarrow> False | Inr (r, st') \<Rightarrow> r = 2 \<and> st' ! r = ?img"
    by code_simp
  then obtain st2 where r: "reconstruct_laplacian_st ?p [0, 1] None = Inr (2, st2)"
      "st2 ! 2 = ?img"
    by (auto split: sum.splits)
  have "construct_laplacian_st [?img] 0 2 = Inr ([7, 5], st1) \<longrightarrow>
          preserves [?img] st1 \<and> ((2::nat) \<le> 2 \<longrightarrow> (\<forall>a\<in>set [7, 5]. fresh [?img] st1 a))
          \<and> ((2::nat) \<le> 1 \<longrightarrow> [7, 5] = [0])"
    using buffers_are_private[where st = "[?img]" and img = 0 and st' = st1 and levels = 2
         and rs = "[7, 5]" and kern = 0 and r = 0 and sigma = 0 and ksize = 0 and img_b = 0
         and high_low_a = "[]" and sigma_b = 0 and ksize_b = 0 and high_low_b = "[]"
         and mixin_ratio = 0 and pyr = "[]" and weights = None]
    by blast
  with c have a: "preserves [?img] st1" "fresh [?img] st1 7" "fresh [?img] st1 5"
    by simp_all
  have "reconstruct_laplacian_st ?p [0, 1] None = Inr (2, st2) \<longrightarrow>
          preserves ?p st2 \<and> fresh ?p st2 2"
    using buffers_are_private[where st = ?p and img = 0 and st' = st2 and levels = 2
         and rs = "[]" and kern = 0 and r = 2 and sigma = 0 and ksize = 0 and img_b = 0
         and high_low_a = "[]" and sigma_b = 0 and ksize_b = 0 and high_low_b = "[]"
         and mixin_ratio = 0 and pyr = "[0, 1]" and weights = None]
    by blast
  with r(1) have b: "preserves ?p st2" by simp
  show ?thesis unfolding c r(1) using a b r(2) by simp
qed

text \<open>
  The claim as the specification words it (no shared buffer for every number of levels,
  \<open>levels = 1\<close> included) fails: with one level both loops are empty and the list
  returned holds address 0, the buffer of the input image.
\<close>

theorem construct_laplacian_one_level_aliases_counterexample:
  "construct_laplacian_st
     [\<lparr>dtype = UInt8, shape = [2, 2, 3], buf = [1, 2, 3, 4, 5, 6, 7, 8, 9, 10, 11, 200]\<rparr>] 0 1
   = Inr ([0],
          [\<lparr>dtype = UInt8, shape = [2, 2, 3], buf = [1, 2, 3, 4, 5, 6, 7, 8, 9, 10, 11, 200]\<rparr>,
           \<lparr>dtype = Float64, shape = [1, 5], buf = [1 / 16, 1 / 4, 3 / 8, 1 / 4, 1 / 16]\<rparr>])
   \<and> \<not> fresh
        [\<lparr>dtype = UInt8, shape = [2, 2, 3], buf = [1, 2, 3, 4, 5, 6, 7, 8, 9, 10, 11, 200]\<rparr>]
        [\<lparr>dtype = UInt8, shape = [2, 2, 3], buf = [1, 2, 3, 4, 5, 6, 7, 8, 9, 10, 11, 200]\<rparr>,
         \<lparr>dtype = Float64, shape = [1, 5], buf = [1 / 16, 1 / 4, 3 / 8, 1 / 4, 1 / 16]\<rparr>] 0"
  by code_simp


section \<open>\<open>high_pass\<close> and \<open>low_pass\<close> in binary64 arithmetic\<close>

subsection \<open>Rounding to the nearest float\<close>

lemma rhe_bounds:
  "x - 1 / 2 \<le> of_int (round_half_even x)" "of_int (round_half_even x) \<le> x + 1 / 2"
  unfolding round_half_even_def Let_def by (auto; linarith)+

lemma rhe_err: "\<bar>of_int (round_half_even x) - x\<bar> \<le> 1 / 2"
  using rhe_bounds[of x] by linarith

lemma rhe_of_int [simp]: "round_half_even (of_int k) = k"
  by (simp add: round_half_even_def)

lemma rhe_near:
  assumes "\<bar>x - of_int k\<bar> < 1 / 2"
  shows "round_half_even x = k"
proof -
  have "\<bar>of_int (round_half_even x) - (of_int k :: real)\<bar> < 1"
    using rhe_err[of x] assms by linarith
  then have "\<bar>(of_int (round_half_even x - k) :: real)\<bar> < 1" by simp
  then have "\<bar>round_half_even x - k\<bar> < 1"
    by (metis of_int_abs of_int_less_1_iff)
  then show ?thesis by linarith
qed

lemma rhe_ge: "of_int k \<le> x \<Longrightarrow> k \<le> round_half_even x"
  unfolding round_half_even_def Let_def by (auto simp: le_floor_iff; linarith)

lemma rhe_le:
  assumes "x \<le> of_int k" shows "round_half_even x \<le> k"
proof (cases "x = of_int k")
  case True
  then show ?thesis by simp
next
  case False
  then have lt: "x < of_int k" using assms by simp
  then have f: "\<lfloor>x\<rfloor> < k" by (simp add: floor_less_iff)
  have "round_half_even x \<le> \<lfloor>x\<rfloor> + 1"
    unfolding round_half_even_def Let_def by auto
  then show ?thesis using f by linarith
qed

lemma find_exponent_spec:
  "e \<le> find_exponent n e a \<and> find_exponent n e a \<le> e + int n
   \<and> (find_exponent n e a = e \<or> 2 powi (find_exponent n e a) \<le> a)
   \<and> (find_exponent n e a = e + int n \<or> a < 2 powi (find_exponent n e a + 1))"
proof (induction n arbitrary: e)
  case 0
  then show ?case by simp
next
  case (Suc n)
  show ?case
  proof (cases "a < 2 powi (e + 1)")
    case True
    then show ?thesis by simp
  next
    case False
    from Suc[of "e + 1"] False show ?thesis
      by (auto simp: not_less)
  qed
qed

lemma p2_pos [simp]: "0 < (2::real) powi n" by simp

lemma p2_mono: "m \<le> n \<Longrightarrow> (2::real) powi m \<le> 2 powi n"
  by (rule power_int_increasing) simp_all

lemma p2_less: "m < n \<Longrightarrow> (2::real) powi m < 2 powi n"
  by (rule power_int_strict_increasing) simp_all

lemma p2_le_D: "(2::real) powi m \<le> 2 powi n \<Longrightarrow> m \<le> n"
  using p2_less[of n m] by (cases "m \<le> n") auto

lemma p2_less_D: "(2::real) powi m < 2 powi n \<Longrightarrow> m < n"
  using p2_mono[of n m] by (cases "m < n") auto

lemma p2_add: "(2::real) powi (m + n) = 2 powi m * 2 powi n"
  by (rule power_int_add) simp

lemma p2_diff: "(2::real) powi (m - n) = 2 powi m / 2 powi n"
  by (rule power_int_diff) simp

lemma p2_of_int: "0 \<le> n \<Longrightarrow> (2::real) powi n = of_int (2 ^ nat n)"
  by (simp add: power_int_def)

lemma fl64_eq: "fl64 x = of_int (round_half_even (x / quantum64 x)) * quantum64 x"
  by (simp add: fl64_def float_round_def quantum64_def exponent64_def Let_def)

lemma exponent64_spec:
  "- 1022 \<le> exponent64 x" "exponent64 x \<le> 1023"
  "exponent64 x = - 1022 \<or> 2 powi (exponent64 x) \<le> \<bar>x\<bar>"
  "exponent64 x = 1023 \<or> \<bar>x\<bar> < 2 powi (exponent64 x + 1)"
  using find_exponent_spec[of "- 1022" 2045 "\<bar>x\<bar>"]
  by (simp_all add: exponent64_def float_exponent_def)

lemma exponent64_ge:
  assumes "2 powi k \<le> \<bar>x\<bar>" "k \<le> 1023"
  shows "k \<le> exponent64 x"
proof (rule ccontr)
  assume "\<not> k \<le> exponent64 x"
  then have lt: "exponent64 x + 1 \<le> k" by simp
  then have "exponent64 x \<noteq> 1023" using assms(2) by simp
  then have "\<bar>x\<bar> < 2 powi (exponent64 x + 1)" using exponent64_spec(4)[of x] by simp
  also have "\<dots> \<le> 2 powi k" using lt by (rule p2_mono)
  finally show False using assms(1) by simp
qed

lemma exponent64_le:
  assumes "\<bar>x\<bar> < 2 powi (k + 1)" "- 1022 \<le> k"
  shows "exponent64 x \<le> k"
proof (rule ccontr)
  assume "\<not> exponent64 x \<le> k"
  then have lt: "k + 1 \<le> exponent64 x" by simp
  then have "exponent64 x \<noteq> - 1022" using assms(2) by simp
  then have "2 powi (exponent64 x) \<le> \<bar>x\<bar>" using exponent64_spec(3)[of x] by simp
  moreover have "2 powi (k + 1) \<le> (2::real) powi (exponent64 x)" using lt by (rule p2_mono)
  ultimately show False using assms(1) by simp
qed

lemma exponent64_minus [simp]: "exponent64 (- x) = exponent64 x"
  by (simp add: exponent64_def float_exponent_def)

lemma quantum64_minus [simp]: "quantum64 (- x) = quantum64 x"
  by (simp add: quantum64_def)

lemma quantum64_pos [simp]: "0 < quantum64 x"
  by (simp add: quantum64_def)

lemma quantum64_nz [simp]: "quantum64 x \<noteq> 0"
  using quantum64_pos[of x] by linarith

lemma quantum64_nonneg [simp]: "0 \<le> quantum64 x"
  using quantum64_pos[of x] by linarith

lemma quantum64_abs [simp]: "\<bar>quantum64 x\<bar> = quantum64 x"
  using quantum64_pos[of x] by linarith

lemma grid_quotient: "x = of_int k * quantum64 y \<Longrightarrow> x / quantum64 y = of_int k"
  by simp

lemma on_grid64_minus [simp]: "on_grid64 (- x) = on_grid64 x"
proof -
  have "on_grid64 y \<Longrightarrow> on_grid64 (- y)" for y
  proof -
    assume "on_grid64 y"
    then obtain k where "y = of_int k * quantum64 y" by (auto simp: on_grid64_def)
    then have "- y = of_int (- k) * quantum64 (- y)" by simp
    then show "on_grid64 (- y)" unfolding on_grid64_def by blast
  qed
  from this[of x] this[of "- x"] show ?thesis by auto
qed

lemma fl64_fix: "on_grid64 x \<Longrightarrow> fl64 x = x"
proof -
  assume "on_grid64 x"
  then obtain k where k: "x = of_int k * quantum64 x" by (auto simp: on_grid64_def)
  then have "x / quantum64 x = of_int k" by (rule grid_quotient)
  then show ?thesis using k by (simp add: fl64_eq)
qed

lemma on_grid64_0 [simp]: "on_grid64 0"
  unfolding on_grid64_def by (rule exI[of _ 0]) simp

lemma fl64_0 [simp]: "fl64 0 = 0"
  by (simp add: fl64_fix)

lemma fl64_error: "\<bar>fl64 x - x\<bar> \<le> \<bar>x\<bar> / 2 ^ 53 + 1 / 2 ^ 1075"
proof -
  let ?q = "quantum64 x"
  have "fl64 x - x = (of_int (round_half_even (x / ?q)) - x / ?q) * ?q"
    by (simp add: fl64_eq field_simps)
  then have "\<bar>fl64 x - x\<bar> = \<bar>of_int (round_half_even (x / ?q)) - x / ?q\<bar> * ?q"
    by (simp add: abs_mult)
  also have "\<dots> \<le> (1 / 2) * ?q"
    using rhe_err[of "x / ?q"] by (intro mult_right_mono) simp_all
  finally have e: "\<bar>fl64 x - x\<bar> \<le> ?q / 2" by simp
  show ?thesis
  proof (cases "exponent64 x = - 1022")
    case True
    then have "?q = 2 powi (- 1074)" by (simp add: quantum64_def)
    then have "?q / 2 = 1 / 2 ^ 1075" by (simp add: power_int_minus_divide)
    moreover have "0 \<le> \<bar>x\<bar> / 2 ^ 53" by simp
    ultimately show ?thesis using e by linarith
  next
    case False
    then have "2 powi (exponent64 x) \<le> \<bar>x\<bar>" using exponent64_spec(3)[of x] by simp
    moreover have "?q / 2 = 2 powi (exponent64 x) / 2 ^ 53"
      by (simp add: quantum64_def p2_diff)
    ultimately have "?q / 2 \<le> \<bar>x\<bar> / 2 ^ 53" by (simp add: divide_right_mono)
    moreover have "(0::real) \<le> 1 / 2 ^ 1075" by simp
    ultimately show ?thesis using e by linarith
  qed
qed

lemma on_grid64_pow2:
  assumes "- 1022 \<le> k" "k \<le> 1023"
  shows "on_grid64 (2 powi k)"
proof -
  have "exponent64 (2 powi k) = k"
  proof (rule antisym)
    show "exponent64 (2 powi k) \<le> k"
      using assms by (intro exponent64_le) (simp_all add: p2_less)
    show "k \<le> exponent64 (2 powi k)"
      using assms by (intro exponent64_ge) simp_all
  qed
  then have "quantum64 (2 powi k) = 2 powi (k - 52)" by (simp add: quantum64_def)
  moreover have "(2::real) powi k = of_int (2 ^ 52) * 2 powi (k - 52)"
    by (simp add: p2_diff)
  ultimately show ?thesis unfolding on_grid64_def by metis
qed

lemma fl64_nonneg: "0 \<le> x \<Longrightarrow> 0 \<le> fl64 x"
proof -
  assume "0 \<le> x"
  then have "of_int 0 \<le> x / quantum64 x" by simp
  then have "0 \<le> round_half_even (x / quantum64 x)" by (rule rhe_ge)
  then show ?thesis by (simp add: fl64_eq)
qed

lemma fl64_ge_pow2:
  assumes "2 powi k \<le> x" "- 1022 \<le> k" "k \<le> 1023"
  shows "2 powi k \<le> fl64 x"
proof -
  let ?e = "exponent64 x" and ?q = "quantum64 x"
  have x: "0 < x" "\<bar>x\<bar> = x" using assms(1) p2_pos[of k] by linarith+
  have ke: "k \<le> ?e" using assms x by (intro exponent64_ge) simp_all
  then have "?e \<noteq> - 1022 \<or> k = ?e" using assms(2) by linarith
  then have "2 powi ?e \<le> x"
    using exponent64_spec(3)[of x] x assms(1) by auto
  then have "2 powi ?e / ?q \<le> x / ?q" by (simp add: divide_right_mono)
  moreover have "2 powi ?e / ?q = of_int (2 ^ 52)"
    by (simp add: quantum64_def p2_diff)
  ultimately have "2 ^ 52 \<le> round_half_even (x / ?q)" by (intro rhe_ge) simp
  then have "(of_int (2 ^ 52) :: real) \<le> of_int (round_half_even (x / ?q))"
    by (simp only: of_int_le_iff)
  then have "of_int (2 ^ 52) * ?q \<le> fl64 x"
    unfolding fl64_eq by (intro mult_right_mono) simp_all
  moreover have "of_int (2 ^ 52) * ?q = 2 powi ?e"
    by (simp add: quantum64_def p2_diff)
  ultimately have "2 powi ?e \<le> fl64 x" by simp
  moreover have "(2::real) powi k \<le> 2 powi ?e" using ke by (rule p2_mono)
  ultimately show ?thesis by linarith
qed

lemma fl64_le_pow2:
  assumes "x \<le> 2 powi k" "0 \<le> x" "- 1022 \<le> k"
  shows "fl64 x \<le> 2 powi k"
proof -
  let ?e = "exponent64 x" and ?q = "quantum64 x"
  have ax: "\<bar>x\<bar> = x" using assms(2) by simp
  have ek: "?e \<le> k"
  proof (cases "?e = - 1022")
    case True
    then show ?thesis using assms(3) by simp
  next
    case False
    then have "2 powi ?e \<le> x" using exponent64_spec(3)[of x] ax by simp
    then have "(2::real) powi ?e \<le> 2 powi k" using assms(1) by linarith
    then show ?thesis by (rule p2_le_D)
  qed
  then have n: "0 \<le> k - ?e + 52" by simp
  have "2 powi k / ?q = 2 powi (k - ?e + 52)"
    by (simp add: quantum64_def p2_diff[symmetric] algebra_simps)
  also have "\<dots> = of_int (2 ^ nat (k - ?e + 52))" using n by (rule p2_of_int)
  finally have b: "2 powi k / ?q = of_int (2 ^ nat (k - ?e + 52))" .
  have "x / ?q \<le> 2 powi k / ?q" using assms(1) by (simp add: divide_right_mono)
  then have "round_half_even (x / ?q) \<le> 2 ^ nat (k - ?e + 52)"
    unfolding b by (rule rhe_le)
  then have "(of_int (round_half_even (x / ?q)) :: real) \<le> of_int (2 ^ nat (k - ?e + 52))"
    by (simp only: of_int_le_iff)
  then have "fl64 x \<le> of_int (2 ^ nat (k - ?e + 52)) * ?q"
    unfolding fl64_eq by (intro mult_right_mono) simp_all
  also have "\<dots> = 2 powi k" using b by (simp add: field_simps)
  finally show ?thesis .
qed

lemma quantum64_ratio:
  assumes "exponent64 y \<le> exponent64 x"
  shows "quantum64 x = of_int (2 ^ nat (exponent64 x - exponent64 y)) * quantum64 y"
proof -
  have "quantum64 x / quantum64 y = 2 powi (exponent64 x - exponent64 y)"
    by (simp add: quantum64_def p2_diff[symmetric])
  also have "\<dots> = of_int (2 ^ nat (exponent64 x - exponent64 y))"
    using assms by (intro p2_of_int) simp
  finally show ?thesis by (simp add: field_simps)
qed

lemma fl64_on_grid: "on_grid64 (fl64 x)"
proof -
  let ?y = "fl64 x"
  let ?k = "round_half_even (x / quantum64 x)"
  have y: "?y = of_int ?k * quantum64 x" by (rule fl64_eq)
  show ?thesis
  proof (cases "exponent64 ?y \<le> exponent64 x")
    case True
    have "?y = of_int (?k * 2 ^ nat (exponent64 x - exponent64 ?y)) * quantum64 ?y"
      using y quantum64_ratio[OF True] by simp
    then show ?thesis unfolding on_grid64_def by blast
  next
    case False
    then have lt: "exponent64 x < exponent64 ?y" by simp
    then have "exponent64 x \<noteq> 1023" using exponent64_spec(2)[of ?y] by linarith
    then have ub: "\<bar>x\<bar> < 2 powi (exponent64 x + 1)" using exponent64_spec(4)[of x] by simp
    have q53: "2 powi (exponent64 x + 1) / quantum64 x = of_int (2 ^ 53)"
      by (simp add: quantum64_def p2_diff[symmetric])
    have "\<bar>x\<bar> / quantum64 x < 2 powi (exponent64 x + 1) / quantum64 x"
      using ub by (simp add: divide_strict_right_mono)
    then have xq: "\<bar>x / quantum64 x\<bar> < of_int (2 ^ 53)" using q53 by simp
    then have "x / quantum64 x \<le> of_int (2 ^ 53)" "- of_int (2 ^ 53) \<le> x / quantum64 x"
      by linarith+
    then have "x / quantum64 x \<le> of_int (2 ^ 53)" "of_int (- (2 ^ 53)) \<le> x / quantum64 x"
      by simp_all
    then have "?k \<le> 2 ^ 53" "- (2 ^ 53) \<le> ?k"
      using rhe_le rhe_ge by blast+
    then have kb: "\<bar>?k\<bar> \<le> 2 ^ 53" by simp
    then have "\<bar>(of_int ?k :: real)\<bar> \<le> of_int (2 ^ 53)"
      by (metis of_int_abs of_int_le_iff)
    then have "\<bar>?y\<bar> \<le> of_int (2 ^ 53) * quantum64 x"
      unfolding y abs_mult by (simp add: mult_right_mono)
    also have "\<dots> = 2 powi (exponent64 x + 1)" using q53 by (simp add: field_simps)
    finally have yb: "\<bar>?y\<bar> \<le> 2 powi (exponent64 x + 1)" .
    have "exponent64 ?y \<noteq> - 1022" using lt exponent64_spec(1)[of x] by linarith
    then have yl: "2 powi (exponent64 ?y) \<le> \<bar>?y\<bar>" using exponent64_spec(3)[of ?y] by simp
    then have "(2::real) powi (exponent64 ?y) \<le> 2 powi (exponent64 x + 1)" using yb by linarith
    then have "exponent64 ?y \<le> exponent64 x + 1" by (rule p2_le_D)
    then have ey: "exponent64 ?y = exponent64 x + 1" using lt by linarith
    then have ay: "\<bar>?y\<bar> = 2 powi (exponent64 x + 1)" using yl yb by simp
    have qy: "2 powi (exponent64 x + 1) = of_int (2 ^ 52) * quantum64 ?y"
      unfolding quantum64_def ey by (simp add: p2_diff p2_add)
    have "?y = of_int (2 ^ 52) * quantum64 ?y \<or> ?y = of_int (- (2 ^ 52)) * quantum64 ?y"
      using ay qy by (cases "0 \<le> ?y") (simp_all add: abs_if)
    then show ?thesis unfolding on_grid64_def by blast
  qed
qed

lemma fl64_idem [simp]: "fl64 (fl64 x) = fl64 x"
  by (simp add: fl64_fix fl64_on_grid)

lemma fl64_absorb:
  assumes g: "on_grid64 b" and lo: "2 powi (- 100) \<le> \<bar>b\<bar>" and hi: "\<bar>b\<bar> \<le> 2 powi 100"
    and a: "\<bar>a\<bar> \<le> 2 powi (- 200)"
  shows "fl64 (b + a) = b"
proof -
  let ?e = "exponent64 b" and ?y = "b + a"
  have e1: "- 100 \<le> ?e" using lo by (intro exponent64_ge) simp_all
  have "\<bar>b\<bar> < 2 powi (100 + 1)" using hi p2_less[of 100 101] by simp
  then have e2: "?e \<le> 100" by (intro exponent64_le) simp_all
  have bl: "2 powi ?e \<le> \<bar>b\<bar>" using exponent64_spec(3)[of b] e1 by simp
  have bu: "\<bar>b\<bar> < 2 powi (?e + 1)" using exponent64_spec(4)[of b] e2 by simp
  from g obtain k where k: "b = of_int k * quantum64 b" by (auto simp: on_grid64_def)
  have q53: "2 powi (?e + 1) = of_int (2 ^ 53) * quantum64 b"
    by (simp add: quantum64_def p2_diff p2_add)
  have "\<bar>of_int k * quantum64 b\<bar> < of_int (2 ^ 53) * quantum64 b"
    using bu k q53 by simp
  then have "\<bar>(of_int k :: real)\<bar> < of_int (2 ^ 53)"
    by (simp add: abs_mult)
  then have "\<bar>k\<bar> < 2 ^ 53" by (metis of_int_abs of_int_less_iff)
  then have "\<bar>k\<bar> + 1 \<le> 2 ^ 53" by simp
  then have "(of_int (\<bar>k\<bar> + 1) :: real) \<le> of_int (2 ^ 53)" by (simp only: of_int_le_iff)
  then have "(\<bar>of_int k\<bar> + 1) * quantum64 b \<le> of_int (2 ^ 53) * quantum64 b"
    by (intro mult_right_mono) simp_all
  moreover have ab: "\<bar>b\<bar> = \<bar>of_int k\<bar> * quantum64 b"
    using arg_cong[OF k, of abs] by (simp add: abs_mult)
  moreover have "(\<bar>of_int k\<bar> + 1) * quantum64 b = \<bar>of_int k\<bar> * quantum64 b + quantum64 b"
    by (simp add: algebra_simps)
  ultimately have bu': "\<bar>b\<bar> + quantum64 b \<le> 2 powi (?e + 1)"
    using q53 by linarith
  have qb: "2 powi (- 152) \<le> quantum64 b"
    unfolding quantum64_def using e1 by (intro p2_mono) simp
  have small: "(2::real) powi (- 200) < 2 powi (- 152)" by (intro p2_less) simp
  have "\<bar>?y\<bar> \<le> \<bar>b\<bar> + \<bar>a\<bar>" by simp
  then have "\<bar>?y\<bar> < 2 powi (?e + 1)" using bu' qb small a by linarith
  then have ey1: "exponent64 ?y \<le> ?e" using e1 by (intro exponent64_le) simp_all
  have "(2::real) powi (?e - 1) + 2 powi (?e - 1) = 2 powi ?e"
    by (simp add: p2_diff)
  moreover have "(2::real) powi (- 200) \<le> 2 powi (?e - 1)" using e1 by (intro p2_mono) simp
  moreover have "\<bar>b\<bar> - \<bar>a\<bar> \<le> \<bar>?y\<bar>" by simp
  ultimately have "2 powi (?e - 1) \<le> \<bar>?y\<bar>" using bl a by linarith
  then have ey2: "?e - 1 \<le> exponent64 ?y" using e2 by (intro exponent64_ge) simp_all
  let ?K = "k * 2 ^ nat (?e - exponent64 ?y)"
  have bK: "b = of_int ?K * quantum64 ?y"
    using k quantum64_ratio[OF ey1] by simp
  have qy: "2 powi (- 153) \<le> quantum64 ?y"
    unfolding quantum64_def using ey2 e1 by (intro p2_mono) simp
  have "?y / quantum64 ?y - of_int ?K = a / quantum64 ?y"
    using bK by (simp add: field_simps)
  moreover have "\<bar>a / quantum64 ?y\<bar> < 1 / 2"
  proof -
    have "\<bar>a\<bar> \<le> 2 powi (- 200)" by (rule a)
    also have "(2::real) powi (- 200) < 2 powi (- 154)" by (intro p2_less) simp
    also have "(2::real) powi (- 154) = 2 powi (- 153) / 2" by (simp add: power_int_minus_divide)
    also have "\<dots> \<le> quantum64 ?y / 2" using qy by simp
    finally have "\<bar>a\<bar> < quantum64 ?y / 2" .
    then show ?thesis by (simp add: field_simps)
  qed
  ultimately have "\<bar>?y / quantum64 ?y - of_int ?K\<bar> < 1 / 2" by simp
  then have "round_half_even (?y / quantum64 ?y) = ?K" by (rule rhe_near)
  then show ?thesis using bK by (simp add: fl64_eq)
qed

lemma fl64_absorb_sub:
  assumes g: "on_grid64 b" and lo: "2 powi (- 100) \<le> \<bar>b\<bar>" and hi: "\<bar>b\<bar> \<le> 2 powi 100"
    and a: "\<bar>a\<bar> \<le> 2 powi (- 200)"
  shows "fl64 (a - b) = - b"
  using fl64_absorb[of "- b" a] assms by simp

subsection \<open>A difference and the sum that adds it back\<close>

lemma sub_add_error:
  "\<bar>fl64 (fl64 (a - b) + b) - a\<bar> \<le> (\<bar>a\<bar> + \<bar>b\<bar>) / 2 ^ 51 + 1 / 2 ^ 1073"
proof -
  define eta :: real where "eta = 1 / 2 ^ 1075"
  define h where "h = fl64 (a - b)"
  define s where "s = fl64 (h + b)"
  define A where "A = \<bar>a\<bar> + \<bar>b\<bar>"
  have eta: "0 \<le> eta" by (simp add: eta_def)
  have A: "\<bar>a - b\<bar> \<le> A" "\<bar>a\<bar> \<le> A" "0 \<le> A" by (simp_all add: A_def)
  have "\<bar>h - (a - b)\<bar> \<le> \<bar>a - b\<bar> / 2 ^ 53 + eta"
    unfolding h_def eta_def by (rule fl64_error)
  moreover have "\<bar>a - b\<bar> / 2 ^ 53 \<le> A / 2 ^ 53" using A(1) by (simp add: divide_right_mono)
  ultimately have e1: "\<bar>h - (a - b)\<bar> \<le> A / 2 ^ 53 + eta" by linarith
  have "\<bar>s - (h + b)\<bar> \<le> \<bar>h + b\<bar> / 2 ^ 53 + eta"
    unfolding s_def eta_def by (rule fl64_error)
  moreover have "\<bar>h + b\<bar> \<le> \<bar>a\<bar> + \<bar>h - (a - b)\<bar>" by linarith
  then have "\<bar>h + b\<bar> / 2 ^ 53 \<le> (\<bar>a\<bar> + \<bar>h - (a - b)\<bar>) / 2 ^ 53"
    by (simp add: divide_right_mono)
  moreover have "(\<bar>a\<bar> + \<bar>h - (a - b)\<bar>) / 2 ^ 53 \<le> (A + (A + eta)) / 2 ^ 53"
  proof -
    have "A / 2 ^ 53 \<le> A" using A(3) by (simp add: field_simps)
    then have "\<bar>h - (a - b)\<bar> \<le> A + eta" using e1 by linarith
    then have "\<bar>a\<bar> + \<bar>h - (a - b)\<bar> \<le> A + (A + eta)" using A(2) by linarith
    then show ?thesis by (simp add: divide_right_mono)
  qed
  ultimately have e2: "\<bar>s - (h + b)\<bar> \<le> (A + (A + eta)) / 2 ^ 53 + eta" by linarith
  have "eta / 2 ^ 53 \<le> eta" using eta by (simp add: field_simps)
  then have "(A + (A + eta)) / 2 ^ 53 \<le> 2 * A / 2 ^ 53 + eta"
    by (simp add: add_divide_distrib)
  then have e2': "\<bar>s - (h + b)\<bar> \<le> 2 * A / 2 ^ 53 + 2 * eta" using e2 by linarith
  have "\<bar>s - a\<bar> \<le> \<bar>h - (a - b)\<bar> + \<bar>s - (h + b)\<bar>" by linarith
  then have "\<bar>s - a\<bar> \<le> 3 * A / 2 ^ 53 + 3 * eta" using e1 e2' by linarith
  moreover have "3 * A / 2 ^ 53 \<le> A / 2 ^ 51" using A(3) by (simp add: field_simps)
  moreover have "3 * eta \<le> 1 / 2 ^ 1073" by (simp add: eta_def)
  ultimately have "\<bar>s - a\<bar> \<le> A / 2 ^ 51 + 1 / 2 ^ 1073" by linarith
  then show ?thesis by (simp add: s_def h_def A_def)
qed

lemma cc_fl_result:
  "cross_correlation_2d_fl img k = Inr out \<Longrightarrow> dtype out = Float64 \<and> shape out = shape img"
  by (auto simp: cross_correlation_2d_fl_def Let_def zeros_like_def zeros_def
           split: if_splits list.splits sum.splits)

lemma low_pass_fl_result:
  "low_pass_fl img sigma ksize = Inr low \<Longrightarrow> dtype low = Float64 \<and> shape low = shape img"
  by (auto simp: low_pass_fl_def convolve_2d_fl_def dest: cc_fl_result split: sum.splits)

lemma high_pass_fl_eq:
  "low_pass_fl img sigma ksize = Inr low \<Longrightarrow> high_pass_fl img sigma ksize = binop_fl (-) img low"
  by (auto simp: low_pass_fl_def high_pass_fl_def split: sum.splits)

lemma high_pass_fl_err:
  "low_pass_fl img sigma ksize = Inl e \<Longrightarrow> high_pass_fl img sigma ksize = Inl e"
  by (auto simp: low_pass_fl_def high_pass_fl_def split: sum.splits)

lemma binop_fl_float64:
  assumes "shape b = shape a" "dtype b = Float64"
  shows "binop_fl f a b = Inr (mk Float64 (shape a) (\<lambda>idx. fl64 (f (get a idx) (get b idx))))"
  using assms by (simp add: binop_fl_def binop_same[of a b] rnd_def promote_def)

subsection \<open>The 3-by-3 kernel for \<open>sigma = 1\<close> and the low-pass of the example image\<close>

lemma fl64_pow2:
  assumes "- 1022 \<le> k" "k \<le> 1023"
  shows "fl64 (2 powi k) = 2 powi k" "fl64 (- (2 powi k)) = - (2 powi k)"
  using on_grid64_pow2[OF assms] by (simp_all add: fl64_fix)

lemma fl64_1 [simp]: "fl64 1 = 1" "fl64 (- 1) = - 1"
  using fl64_pow2[of 0] by simp_all

lemma fl64_2 [simp]: "fl64 2 = 2" "fl64 (- 2) = - 2"
  using fl64_pow2[of 1] by simp_all

lemma fl64_half [simp]: "fl64 (- (1 / 2)) = - (1 / 2)"
  using fl64_pow2(2)[of "- 1"] by (simp add: power_int_minus_divide)

lemma fl64_between:
  assumes "2 powi i \<le> x" "x \<le> 2 powi j" "- 1022 \<le> i" "i \<le> 1023" "- 1022 \<le> j"
  shows "2 powi i \<le> fl64 x \<and> fl64 x \<le> 2 powi j"
proof -
  have "0 \<le> x" using assms(1) p2_pos[of i] by linarith
  then show ?thesis using assms by (simp add: fl64_ge_pow2 fl64_le_pow2)
qed

lemma unit_two_pi_bounds: "2 powi 2 \<le> unit_two_pi" "unit_two_pi \<le> 2 powi 3"
proof -
  have "2 powi 2 \<le> 2 * pi64 \<and> 2 * pi64 \<le> 2 powi 3" by (simp add: pi64_def)
  then have "2 powi 2 \<le> fl64 (2 * pi64) \<and> fl64 (2 * pi64) \<le> 2 powi 3"
    by (intro fl64_between) simp_all
  then show "2 powi 2 \<le> unit_two_pi" "unit_two_pi \<le> 2 powi 3" by (simp_all add: unit_two_pi_def)
qed

lemma unit_coeff_bounds: "2 powi (- 3) \<le> unit_coeff" "unit_coeff \<le> 2 powi (- 2)"
proof -
  have p: "0 < unit_two_pi" using unit_two_pi_bounds(1) by simp
  have "1 / 2 powi 3 \<le> 1 / unit_two_pi" using unit_two_pi_bounds(2) p by (intro divide_left_mono) simp_all
  moreover have "1 / unit_two_pi \<le> 1 / 2 powi 2" using unit_two_pi_bounds(1) by (intro divide_left_mono) simp_all
  ultimately have "2 powi (- 3) \<le> 1 / unit_two_pi \<and> 1 / unit_two_pi \<le> 2 powi (- 2)"
    by (simp add: power_int_minus_divide)
  then have "2 powi (- 3) \<le> fl64 (1 / unit_two_pi) \<and> fl64 (1 / unit_two_pi) \<le> 2 powi (- 2)"
    by (intro fl64_between) simp_all
  then show "2 powi (- 3) \<le> unit_coeff" "unit_coeff \<le> 2 powi (- 2)" by (simp_all add: unit_coeff_def)
qed

lemma e64_powr_bounds:
  assumes "- 1 \<le> t" "t \<le> 0"
  shows "2 powi (- 2) \<le> e64 powr t" "e64 powr t \<le> 2 powi 0"
proof -
  have e: "1 \<le> e64" "e64 \<le> 4" "0 < e64" by (simp_all add: e64_def)
  have "e64 powr t \<le> e64 powr 0" using assms e(1) by (intro powr_mono) simp_all
  then show "e64 powr t \<le> 2 powi 0" using e(3) by simp
  have "e64 powr (- 1) \<le> e64 powr t" using assms e(1) by (intro powr_mono) simp_all
  moreover have "e64 powr (- 1) = 1 / e64" using e(3) by (simp add: powr_minus_divide)
  moreover have "1 / 4 \<le> 1 / e64" using e by (intro divide_left_mono) simp_all
  ultimately show "2 powi (- 2) \<le> e64 powr t" by (simp add: power_int_minus_divide)
qed

lemma unit_entry_bounds:
  assumes "- 1 \<le> t" "t \<le> 0"
  shows "2 powi (- 5) \<le> unit_entry t" "unit_entry t \<le> 2 powi (- 2)"
proof -
  let ?p = "fl64 (e64 powr t)"
  have p: "2 powi (- 2) \<le> ?p \<and> ?p \<le> 2 powi 0"
    using e64_powr_bounds[OF assms] by (intro fl64_between) simp_all
  have "2 powi (- 3) * 2 powi (- 2) \<le> unit_coeff * ?p"
    using unit_coeff_bounds(1) p by (intro mult_mono) simp_all
  moreover have "unit_coeff * ?p \<le> 2 powi (- 2) * 2 powi 0"
    using unit_coeff_bounds p by (intro mult_mono) simp_all
  ultimately have "2 powi (- 5) \<le> unit_coeff * ?p \<and> unit_coeff * ?p \<le> 2 powi (- 2)"
    by (simp add: power_int_minus_divide)
  then have "2 powi (- 5) \<le> fl64 (unit_coeff * ?p) \<and> fl64 (unit_coeff * ?p) \<le> 2 powi (- 2)"
    by (intro fl64_between) simp_all
  then show "2 powi (- 5) \<le> unit_entry t" "unit_entry t \<le> 2 powi (- 2)" by (simp_all add: unit_entry_def)
qed

lemma unit_square: "\<not> float_overflows (1\<^sup>2)"
  by (simp add: float_overflows_def)

lemma gauss_entry_fl_unit:
  assumes "n = (x - 1)\<^sup>2 + (y - 1)\<^sup>2" "n = 0 \<or> n = 1 \<or> n = 2"
  shows "gauss_entry_fl 1 1 1 y x = Inr (unit_entry (- real_of_int n / 2))"
proof -
  have tp: "fl64 (fl64 (2 * pi64) * 1) \<noteq> 0" using unit_two_pi_bounds(1) by (simp add: unit_two_pi_def)
  have num: "fl64 (- real_of_int n) = - real_of_int n" using assms(2) by auto
  have q: "fl64 (- (real_of_int n / 2)) = - (real_of_int n / 2)" using assms(2) by auto
  show ?thesis
    using tp unit_square
    by (simp add: gauss_entry_fl_def Let_def assms(1)[symmetric] num q unit_entry_def unit_coeff_def unit_two_pi_def)
qed

lemma idx33:
  "indices [3, 3] = [[0, 0], [0, 1], [0, 2], [1, 0], [1, 1], [1, 2], [2, 0], [2, 1], [2, 2]]"
  by code_simp

lemma pairwise_sum_9:
  "pairwise_sum r [a0, a1, a2, a3, a4, a5, a6, a7, a8]
     = r (r (r (r (a0 + a1) + r (a2 + a3)) + r (r (a4 + a5) + r (a6 + a7))) + a8)"
  by (simp add: pairwise_sum.simps block_sum_def accumulate8.simps)

lemma add_bounds:
  assumes "2 powi i \<le> x" "x \<le> 2 powi j" "0 \<le> y" "y \<le> 2 powi j"
    and "- 1022 \<le> i" "i \<le> 1023" "- 1022 \<le> j"
  shows "2 powi i \<le> fl64 (x + y) \<and> fl64 (x + y) \<le> 2 powi (j + 1)"
proof -
  have "x + y \<le> 2 powi j + 2 powi j" using assms by linarith
  then have "x + y \<le> 2 powi (j + 1)" by (simp add: p2_add)
  moreover have "2 powi i \<le> x + y" using assms by linarith
  ultimately show ?thesis using assms by (intro fl64_between) simp_all
qed

lemma nine_sum_bounds:
  assumes "\<forall>v \<in> set [a0, a1, a2, a3, a4, a5, a6, a7, a8]. 2 powi (- 5) \<le> v \<and> v \<le> 2 powi (- 2)"
  shows "2 powi (- 5) \<le> fl64 (0 + pairwise_sum fl64 [a0, a1, a2, a3, a4, a5, a6, a7, a8])
       \<and> fl64 (0 + pairwise_sum fl64 [a0, a1, a2, a3, a4, a5, a6, a7, a8]) \<le> 2 powi 2"
proof -
  have nn: "0 \<le> v" if "2 powi (- 5) \<le> v" for v :: real
    using that p2_pos[of "- 5"] by linarith
  have b1: "2 powi (- 5) \<le> fl64 (x + y) \<and> fl64 (x + y) \<le> 2 powi (- 1)"
    if "2 powi (- 5) \<le> x \<and> x \<le> 2 powi (- 2)" "2 powi (- 5) \<le> y \<and> y \<le> 2 powi (- 2)" for x y
    using add_bounds[of "- 5" x "- 2" y] that nn[of y] by simp
  have b2: "2 powi (- 5) \<le> fl64 (x + y) \<and> fl64 (x + y) \<le> 2 powi 0"
    if "2 powi (- 5) \<le> x \<and> x \<le> 2 powi (- 1)" "2 powi (- 5) \<le> y \<and> y \<le> 2 powi (- 1)" for x y
    using add_bounds[of "- 5" x "- 1" y] that nn[of y] by simp
  have b3: "2 powi (- 5) \<le> fl64 (x + y) \<and> fl64 (x + y) \<le> 2 powi 1"
    if "2 powi (- 5) \<le> x \<and> x \<le> 2 powi 0" "2 powi (- 5) \<le> y \<and> y \<le> 2 powi 0" for x y
    using add_bounds[of "- 5" x 0 y] that nn[of y] by simp
  have b4: "2 powi (- 5) \<le> fl64 (x + y) \<and> fl64 (x + y) \<le> 2 powi 2"
    if "2 powi (- 5) \<le> x \<and> x \<le> 2 powi 1" "2 powi (- 5) \<le> y \<and> y \<le> 2 powi (- 2)" for x y
  proof -
    have "(2::real) powi (- 2) \<le> 2 powi 1" by (intro p2_mono) simp
    then show ?thesis using add_bounds[of "- 5" x 1 y] that nn[of y] by simp
  qed
  from assms have a: "2 powi (- 5) \<le> a0 \<and> a0 \<le> 2 powi (- 2)" "2 powi (- 5) \<le> a1 \<and> a1 \<le> 2 powi (- 2)"
      "2 powi (- 5) \<le> a2 \<and> a2 \<le> 2 powi (- 2)" "2 powi (- 5) \<le> a3 \<and> a3 \<le> 2 powi (- 2)"
      "2 powi (- 5) \<le> a4 \<and> a4 \<le> 2 powi (- 2)" "2 powi (- 5) \<le> a5 \<and> a5 \<le> 2 powi (- 2)"
      "2 powi (- 5) \<le> a6 \<and> a6 \<le> 2 powi (- 2)" "2 powi (- 5) \<le> a7 \<and> a7 \<le> 2 powi (- 2)"
      "2 powi (- 5) \<le> a8 \<and> a8 \<le> 2 powi (- 2)"
    by simp_all
  note q1 = b2[OF b1[OF a(1,2)] b1[OF a(3,4)]]
  note q2 = b2[OF b1[OF a(5,6)] b1[OF a(7,8)]]
  note s8 = b4[OF b3[OF q1 q2] a(9)]
  show ?thesis
    unfolding pairwise_sum_9 using s8 by simp
qed

lemma rnd_Float64: "rnd Float64 = fl64"
  by (rule ext) (simp add: rnd_def)

lemma collect_Inr: "collect (map Inr xs) = Inr xs"
  by (induction xs) auto

lemma kernel_example:
  "\<exists>k0 k1 k2 k3 k4 k5 k6 k7 k8.
     gaussian_blur_kernel_2d_fl 1 3 3
       = Inr \<lparr>dtype = Float64, shape = [3, 3], buf = [k0, k1, k2, k3, k4, k5, k6, k7, k8]\<rparr>
   \<and> (\<forall>v \<in> set [k0, k1, k2, k3, k4, k5, k6, k7, k8].
         on_grid64 v \<and> 2 powi (- 7) \<le> v \<and> v \<le> 2 powi 3)"
proof -
  let ?gs = "[unit_entry (- 1), unit_entry (- (1 / 2)), unit_entry (- 1), unit_entry (- (1 / 2)), unit_entry 0, unit_entry (- (1 / 2)),
              unit_entry (- 1), unit_entry (- (1 / 2)), unit_entry (- 1)]"
  let ?S = "fl64 (0 + pairwise_sum fl64 ?gs)"
  have e: "map (\<lambda>idx. gauss_entry_fl 1 1 1 (int (idx ! 0)) (int (idx ! 1))) (indices [3, 3])
             = map Inr ?gs"
    unfolding idx33
    using gauss_entry_fl_unit[of 2 0 0] gauss_entry_fl_unit[of 1 1 0] gauss_entry_fl_unit[of 2 2 0]
      gauss_entry_fl_unit[of 1 0 1] gauss_entry_fl_unit[of 0 1 1] gauss_entry_fl_unit[of 1 2 1]
      gauss_entry_fl_unit[of 2 0 2] gauss_entry_fl_unit[of 1 1 2] gauss_entry_fl_unit[of 2 2 2]
    by simp
  have k: "gaussian_blur_kernel_2d_fl 1 3 3
       = Inr \<lparr>dtype = Float64, shape = [3, 3], buf = map (\<lambda>v. fl64 (v / ?S)) ?gs\<rparr>"
  proof -
    have "gaussian_blur_kernel_2d_fl 1 3 3
        = (case collect (map (\<lambda>idx. gauss_entry_fl 1 1 1 (int (idx ! 0)) (int (idx ! 1)))
                           (indices [3, 3])) of
             Inl e \<Rightarrow> Inl e
           | Inr vs \<Rightarrow>
               Inr \<lparr>dtype = Float64, shape = [3, 3],
                    buf = map (\<lambda>v. fl64 (v / np_sum_fl \<lparr>dtype = Float64, shape = [3, 3], buf = vs\<rparr>)) vs\<rparr>)"
      by (simp add: gaussian_blur_kernel_2d_fl_def zeros_too_big_def Let_def split: sum.splits)
    also have "\<dots> = Inr \<lparr>dtype = Float64, shape = [3, 3], buf = map (\<lambda>v. fl64 (v / ?S)) ?gs\<rparr>"
      unfolding e collect_Inr by (simp add: np_sum_fl_def rnd_Float64)
    finally show ?thesis .
  qed
  have g: "\<forall>v \<in> set ?gs. 2 powi (- 5) \<le> v \<and> v \<le> 2 powi (- 2)"
    using unit_entry_bounds[of "- 1"] unit_entry_bounds[of "- (1 / 2)"] unit_entry_bounds[of 0] by simp
  from nine_sum_bounds[OF g] have S: "2 powi (- 5) \<le> ?S" "?S \<le> 2 powi 2" by simp_all
  have "on_grid64 (fl64 (v / ?S)) \<and> 2 powi (- 7) \<le> fl64 (v / ?S) \<and> fl64 (v / ?S) \<le> 2 powi 3"
    if "v \<in> set ?gs" for v
  proof -
    from that g have v: "2 powi (- 5) \<le> v" "v \<le> 2 powi (- 2)" by blast+
    have Sp: "0 < ?S" using S(1) p2_pos[of "- 5"] by linarith
    have vp: "0 \<le> v" using v(1) p2_pos[of "- 5"] by linarith
    have "2 powi (- 5) / 2 powi 2 \<le> v / ?S"
      using v(1) S(2) Sp by (intro frac_le) simp_all
    moreover have "v / ?S \<le> 2 powi (- 2) / 2 powi (- 5)"
      using v(2) S(1) vp by (intro frac_le) simp_all
    ultimately have "2 powi (- 7) \<le> v / ?S \<and> v / ?S \<le> 2 powi 3"
      by (simp add: power_int_minus_divide)
    then have "2 powi (- 7) \<le> fl64 (v / ?S) \<and> fl64 (v / ?S) \<le> 2 powi 3"
      by (intro fl64_between) simp_all
    then show ?thesis by (simp add: fl64_on_grid)
  qed
  then have "\<forall>w \<in> set (map (\<lambda>v. fl64 (v / ?S)) ?gs). on_grid64 w \<and> 2 powi (- 7) \<le> w \<and> w \<le> 2 powi 3"
    by auto
  then show ?thesis using k by (intro exI conjI) simp_all
qed

lemma idx12: "indices [1, 2] = [[0, 0], [0, 1]]"
  by code_simp

lemma idx34:
  "indices [3, 4] = [[0, 0], [0, 1], [0, 2], [0, 3], [1, 0], [1, 1], [1, 2], [1, 3],
                     [2, 0], [2, 1], [2, 2], [2, 3]]"
  by code_simp

lemma idx34':
  "indices [Suc (Suc (Suc 0)), 4] = [[0, 0], [0, 1], [0, 2], [0, 3], [1, 0], [1, 1], [1, 2], [1, 3],
                     [2, 0], [2, 1], [2, 2], [2, 3]]"
  using idx34 by (simp add: numeral_3_eq_3)

lemma pad_12:
  "pad2 \<lparr>dtype = Float64, shape = [1, 2], buf = [t, u]\<rparr> 1 1
     = \<lparr>dtype = Float64, shape = [3, 4], buf = [0, 0, 0, 0, 0, t, u, 0, 0, 0, 0, 0]\<rparr>"
  by (simp add: pad2_def Let_def mk_def idx34' get_def)

lemma window_34:
  "window2 \<lparr>dtype = Float64, shape = [3, 4],
             buf = [p0, p1, p2, p3, p4, p5, p6, p7, p8, p9, p10, p11]\<rparr> 0 3 0 3
     = \<lparr>dtype = Float64, shape = [3, 3], buf = [p0, p1, p2, p4, p5, p6, p8, p9, p10]\<rparr>"
  "window2 \<lparr>dtype = Float64, shape = [3, 4],
             buf = [p0, p1, p2, p3, p4, p5, p6, p7, p8, p9, p10, p11]\<rparr> 0 3 (Suc 0) 3
     = \<lparr>dtype = Float64, shape = [3, 3], buf = [p1, p2, p3, p5, p6, p7, p9, p10, p11]\<rparr>"
  by (simp_all add: window2_def mk_def idx33 get_def)

lemma flip2_33:
  "flip2 \<lparr>dtype = Float64, shape = [3, 3], buf = [k0, k1, k2, k3, k4, k5, k6, k7, k8]\<rparr>
     = Inr \<lparr>dtype = Float64, shape = [3, 3], buf = [k8, k7, k6, k5, k4, k3, k2, k1, k0]\<rparr>"
  by (simp add: flip2_def mk_def idx33 get_def)

lemma kernel_dot_fl_33:
  "kernel_dot_fl \<lparr>dtype = Float64, shape = [3, 3], buf = [a0, a1, a2, a3, a4, a5, a6, a7, a8]\<rparr>
       \<lparr>dtype = Float64, shape = [3, 3], buf = [w0, w1, w2, w3, w4, w5, w6, w7, w8]\<rparr>
     = Inr (fl64 (fl64 (0 + pairwise_sum fl64
              [fl64 (a0 * w0), fl64 (a1 * w1), fl64 (a2 * w2), fl64 (a3 * w3), fl64 (a4 * w4),
               fl64 (a5 * w5), fl64 (a6 * w6), fl64 (a7 * w7), fl64 (a8 * w8)])))"
  by (simp add: kernel_dot_fl_def binop_fl_def binop_same np_sum_fl_def rnd_Float64 rnd_def
        promote_def mk_def idx33 get_def)

lemma shape_absorbed_image [simp]: "shape absorbed_image = [1, 2]" "dtype absorbed_image = Float64"
  by (simp_all add: absorbed_image_def)

lemma cc_fl_example:
  "cross_correlation_2d_fl absorbed_image
       \<lparr>dtype = Float64, shape = [3, 3], buf = [a0, a1, a2, a3, a4, a5, a6, a7, a8]\<rparr>
     = Inr \<lparr>dtype = Float64, shape = [1, 2],
            buf = [fl64 (fl64 (a4 * tiny_sample) + fl64 a5), fl64 (fl64 (a3 * tiny_sample) + fl64 a4)]\<rparr>"
proof -
  have "cross_correlation_2d_fl absorbed_image
       \<lparr>dtype = Float64, shape = [3, 3], buf = [a0, a1, a2, a3, a4, a5, a6, a7, a8]\<rparr>
     = (case collect (map (\<lambda>hw. kernel_dot_fl
                \<lparr>dtype = Float64, shape = [3, 3], buf = [a0, a1, a2, a3, a4, a5, a6, a7, a8]\<rparr>
                (window2 (pad2 absorbed_image 1 1) (hw ! 0) 3 (hw ! 1) 3)) (indices [1, 2])) of
          Inl e \<Rightarrow> Inl e
        | Inr vs \<Rightarrow> Inr \<lparr>dtype = Float64, shape = [1, 2], buf = vs\<rparr>)"
    by (simp add: cross_correlation_2d_fl_def Let_def split: sum.splits)
  also have "\<dots> = Inr \<lparr>dtype = Float64, shape = [1, 2],
            buf = [fl64 (fl64 (a4 * tiny_sample) + fl64 a5), fl64 (fl64 (a3 * tiny_sample) + fl64 a4)]\<rparr>"
    unfolding idx12 absorbed_image_def pad_12
    by (simp add: window_34 kernel_dot_fl_33 pairwise_sum_9)
  finally show ?thesis .
qed

lemma tiny_sample_eq: "tiny_sample = 2 powi (- 300)"
  by (simp add: tiny_sample_def power_int_minus_divide)

lemma low_pass_example:
  "\<exists>L0 L1. low_pass_fl absorbed_image 1 3 = Inr \<lparr>dtype = Float64, shape = [1, 2], buf = [L0, L1]\<rparr>
     \<and> on_grid64 L0 \<and> 2 powi (- 100) \<le> L0 \<and> L0 \<le> 2 powi 100"
proof -
  from kernel_example obtain k0 k1 k2 k3 k4 k5 k6 k7 k8 where
    k: "gaussian_blur_kernel_2d_fl 1 3 3
          = Inr \<lparr>dtype = Float64, shape = [3, 3], buf = [k0, k1, k2, k3, k4, k5, k6, k7, k8]\<rparr>"
    and b: "\<forall>v \<in> set [k0, k1, k2, k3, k4, k5, k6, k7, k8].
              on_grid64 v \<and> 2 powi (- 7) \<le> v \<and> v \<le> 2 powi 3"
    by blast
  let ?a = "fl64 (k4 * tiny_sample)"
  let ?L0 = "fl64 (?a + fl64 k3)" and ?L1 = "fl64 (fl64 (k5 * tiny_sample) + fl64 k4)"
  have low: "low_pass_fl absorbed_image 1 3 = Inr \<lparr>dtype = Float64, shape = [1, 2], buf = [?L0, ?L1]\<rparr>"
    by (simp add: low_pass_fl_def k convolve_2d_fl_def flip2_33 cc_fl_example)
  from b have k3: "on_grid64 k3" "2 powi (- 7) \<le> k3" "k3 \<le> 2 powi 3"
    and k4: "2 powi (- 7) \<le> k4" "k4 \<le> 2 powi 3"
    by simp_all
  have f3: "fl64 k3 = k3" using k3(1) by (rule fl64_fix)
  have k4p: "0 \<le> k4" using k4(1) p2_pos[of "- 7"] by linarith
  have "k4 * tiny_sample \<le> 2 powi 3 * 2 powi (- 300)"
    unfolding tiny_sample_eq using k4(2) by (intro mult_right_mono) simp_all
  then have "k4 * tiny_sample \<le> 2 powi (- 297)" by (simp add: p2_add[symmetric])
  moreover have t0: "0 \<le> k4 * tiny_sample" using k4p by (simp add: tiny_sample_def)
  ultimately have "?a \<le> 2 powi (- 297)" by (intro fl64_le_pow2) simp_all
  moreover have "(2::real) powi (- 297) \<le> 2 powi 3" by (intro p2_mono) simp
  ultimately have a: "0 \<le> ?a" "?a \<le> 2 powi 3" using t0 by (simp_all add: fl64_nonneg)
  have "2 powi (- 7) \<le> fl64 (k3 + ?a) \<and> fl64 (k3 + ?a) \<le> 2 powi (3 + 1)"
    using k3 a by (intro add_bounds) simp_all
  then have L: "2 powi (- 7) \<le> ?L0" "?L0 \<le> 2 powi 4" by (simp_all add: f3 add.commute)
  have "(2::real) powi (- 100) \<le> 2 powi (- 7)" "(2::real) powi 4 \<le> 2 powi 100"
    by (intro p2_mono; simp)+
  then have "2 powi (- 100) \<le> ?L0" "?L0 \<le> 2 powi 100" using L by linarith+
  then show ?thesis using low fl64_on_grid[of "?a + fl64 k3"] by blast
qed

lemma get_12:
  "get \<lparr>dtype = d, shape = [m, 2], buf = [x, y]\<rparr> [0, 0] = x"
  "get \<lparr>dtype = d, shape = [m, 2], buf = [x, y]\<rparr> [0, 1] = y"
  "get \<lparr>dtype = d, shape = [m, 2], buf = [x, y]\<rparr> [0, Suc 0] = y"
  by (simp_all add: get_def)

lemma in_idx12: "[0, 0] \<in> set (indices [1, 2])" "[0, 1] \<in> set (indices [1, 2])"
  by (simp_all add: in_indices2)


text \<open>
  C4. \<open>high_pass\<close> is the image minus the low-pass result with the same parameters,
  so that in real arithmetic their sum is the image (lemma
  \<open>high_pass_plus_low_pass_reals\<close>). In binary64 arithmetic the subtraction and the
  addition each round, and the sum is the image only up to this rounding. For every
  image whose samples have a magnitude of at most \<open>2^1000\<close> (no operation then
  overflows to infinity, which the model does not represent), every \<open>sigma\<close> and every
  size: when \<open>low_pass\<close> raises, \<open>high_pass\<close> raises the same exception; when
  \<open>low_pass\<close> returns, \<open>high_pass\<close> returns the rounded difference of the image and
  the low-pass result, and every sample of the float64 sum of the two results differs
  from the sample of the image by at most \<open>(|image| + |low|) / 2^51 + 2^-1073\<close>.
\<close>

theorem high_pass_plus_low_pass:
  assumes "list_all (\<lambda>v. \<bar>v\<bar> \<le> 2 ^ 1000) (buf img)"
  shows "case low_pass_fl img sigma ksize of
           Inl e \<Rightarrow> high_pass_fl img sigma ksize = Inl e
         | Inr low \<Rightarrow>
             \<exists>high summed. high_pass_fl img sigma ksize = Inr high
                  \<and> binop_fl (+) high low = Inr summed
                  \<and> dtype summed = Float64 \<and> shape summed = shape img
                  \<and> (\<forall>idx \<in> set (indices (shape img)).
                        get high idx = fl64 (get img idx - get low idx)
                      \<and> get summed idx = fl64 (get high idx + get low idx)
                      \<and> \<bar>get summed idx - get img idx\<bar>
                            \<le> (\<bar>get img idx\<bar> + \<bar>get low idx\<bar>) / 2 ^ 51 + 1 / 2 ^ 1073)"
proof (cases "low_pass_fl img sigma ksize")
  case (Inl e)
  then show ?thesis by (simp add: high_pass_fl_err)
next
  case (Inr low)
  from low_pass_fl_result[OF Inr] have l: "dtype low = Float64" "shape low = shape img"
    by simp_all
  let ?high = "mk Float64 (shape img) (\<lambda>idx. fl64 (get img idx - get low idx))"
  let ?summed = "mk Float64 (shape img) (\<lambda>idx. fl64 (get ?high idx + get low idx))"
  have h: "high_pass_fl img sigma ksize = Inr ?high"
    using high_pass_fl_eq[OF Inr] l by (simp add: binop_fl_float64)
  have t: "binop_fl (+) ?high low = Inr ?summed"
    using l binop_fl_float64[of low ?high "(+)"] by simp
  have b: "get ?high idx = fl64 (get img idx - get low idx)
      \<and> get ?summed idx = fl64 (get ?high idx + get low idx)
      \<and> \<bar>get ?summed idx - get img idx\<bar>
            \<le> (\<bar>get img idx\<bar> + \<bar>get low idx\<bar>) / 2 ^ 51 + 1 / 2 ^ 1073"
    if "idx \<in> set (indices (shape img))" for idx
    using that sub_add_error[of "get img idx" "get low idx"] by (simp add: get_mk)
  show ?thesis
    unfolding Inr sum.case
  proof (intro exI conjI)
    show "high_pass_fl img sigma ksize = Inr ?high" by (rule h)
    show "binop_fl (+) ?high low = Inr ?summed" by (rule t)
    show "dtype ?summed = Float64" by simp
    show "shape ?summed = shape img" by simp
    show "\<forall>idx \<in> set (indices (shape img)).
            get ?high idx = fl64 (get img idx - get low idx)
          \<and> get ?summed idx = fl64 (get ?high idx + get low idx)
          \<and> \<bar>get ?summed idx - get img idx\<bar>
                \<le> (\<bar>get img idx\<bar> + \<bar>get low idx\<bar>) / 2 ^ 51 + 1 / 2 ^ 1073"
      using b by blast
  qed
qed

theorem high_pass_plus_low_pass_witness:
  "list_all (\<lambda>v. \<bar>v\<bar> \<le> 2 ^ 1000) (buf absorbed_image)
   \<and> (case low_pass_fl absorbed_image 1 3 of
        Inl e \<Rightarrow> False
      | Inr low \<Rightarrow>
          (case high_pass_fl absorbed_image 1 3 of
             Inl e \<Rightarrow> False
           | Inr high \<Rightarrow>
               (case binop_fl (+) high low of
                  Inl e \<Rightarrow> False
                | Inr summed \<Rightarrow>
                    \<bar>get summed [0, 1] - 1\<bar> \<le> (1 + \<bar>get low [0, 1]\<bar>) / 2 ^ 51 + 1 / 2 ^ 1073)))"
proof -
  have h: "list_all (\<lambda>v. \<bar>v\<bar> \<le> 2 ^ 1000) (buf absorbed_image)" by (simp add: absorbed_image_def tiny_sample_def)
  from low_pass_example obtain L0 L1 where
    low: "low_pass_fl absorbed_image 1 3 = Inr \<lparr>dtype = Float64, shape = [1, 2], buf = [L0, L1]\<rparr>"
    by blast
  have g: "get absorbed_image [0, 1] = 1" unfolding absorbed_image_def by (rule get_12(2))
  from high_pass_plus_low_pass[OF h, of 1 3] low in_idx12(2) g
  show ?thesis using h by auto
qed

text \<open>
  The claim as the specification words it (the sum equals the image exactly) fails on
  the one-row image with the samples \<open>2^-300\<close> and 1, for \<open>sigma = 1\<close> and the size 3:
  the low-pass result at the first pixel is about 0.12, the subtraction
  \<open>2^-300 - 0.12...\<close> rounds to \<open>-0.12...\<close>, and adding the low-pass result back gives
  \<open>0.0\<close>, not \<open>2^-300\<close>.
\<close>

theorem high_pass_plus_low_pass_rounding_counterexample:
  "(case low_pass_fl absorbed_image 1 3 of
      Inl e \<Rightarrow> False
    | Inr low \<Rightarrow>
        (case high_pass_fl absorbed_image 1 3 of
           Inl e \<Rightarrow> False
         | Inr high \<Rightarrow>
             (case binop_fl (+) high low of
                Inl e \<Rightarrow> False
              | Inr summed \<Rightarrow>
                  get summed [0, 0] = 0 \<and> get absorbed_image [0, 0] = 1 / 2 ^ 300 \<and> summed \<noteq> absorbed_image)))"
proof -
  from low_pass_example obtain L0 L1 where
    low: "low_pass_fl absorbed_image 1 3 = Inr \<lparr>dtype = Float64, shape = [1, 2], buf = [L0, L1]\<rparr>"
    and L0: "on_grid64 L0" "2 powi (- 100) \<le> L0" "L0 \<le> 2 powi 100"
    by blast
  let ?low = "\<lparr>dtype = Float64, shape = [1, 2], buf = [L0, L1]\<rparr>"
  let ?high = "mk Float64 [1, 2] (\<lambda>idx. fl64 (get absorbed_image idx - get ?low idx))"
  let ?summed = "mk Float64 [1, 2] (\<lambda>idx. fl64 (get ?high idx + get ?low idx))"
  have high: "high_pass_fl absorbed_image 1 3 = Inr ?high"
    using high_pass_fl_eq[OF low] binop_fl_float64[of ?low absorbed_image "(-)"] by simp
  have summed: "binop_fl (+) ?high ?low = Inr ?summed"
    using binop_fl_float64[of ?low ?high "(+)"] by simp
  have L0p: "0 < L0" "\<bar>L0\<bar> = L0" using L0(2) p2_pos[of "- 100"] by linarith+
  have t: "\<bar>tiny_sample\<bar> \<le> 2 powi (- 200)"
    unfolding tiny_sample_eq using p2_mono[of "- 300" "- 200"] by simp
  have g: "get absorbed_image [0, 0] = tiny_sample" unfolding absorbed_image_def by (rule get_12(1))
  have "get ?high [0, 0] = fl64 (tiny_sample - L0)"
    using in_idx12(1) by (simp add: get_mk g get_12)
  also have "\<dots> = - L0"
    using L0 L0p(2) t by (intro fl64_absorb_sub) simp_all
  finally have h0: "get ?high [0, 0] = - L0" .
  have t0: "get ?summed [0, 0] = 0"
    using in_idx12(1) h0 by (simp add: get_mk get_12)
  have "get absorbed_image [0, 0] \<noteq> 0" using g by (simp add: tiny_sample_def)
  then have ne: "?summed \<noteq> absorbed_image" using t0 by auto
  have g': "get absorbed_image [0, 0] = 1 / 2 ^ 300" using g by (simp only: tiny_sample_def)
  show ?thesis
    unfolding low high summed sum.case by (intro conjI t0 g' ne)
qed

end
